theory Spec2Isabelle
  imports Main "HOL-Library.AList" "HOL-Library.Sublist"
begin

section \<open>Data model of \<^verbatim>\<open>src/index.tsx\<close>\<close>

text \<open>
  Strings are Isabelle strings; a character is a code unit below 256. A field that
  JavaScript may leave \<^verbatim>\<open>undefined\<close> (or \<^verbatim>\<open>null\<close>) is an \<open>option\<close>.
  \<^verbatim>\<open>Date.now()\<close> is an input of the functions that read the clock.
\<close>

datatype Role = User | Model

record Message =
  role :: Role
  parts :: \<open>string list\<close>

text \<open>
  The artifact built by \<^verbatim>\<open>present_artifact\<close> is \<^verbatim>\<open>{id, ...args}\<close>: apart from the
  id, it has exactly the fields the tool call carries, so each of them may be missing.
\<close>

record Artifact =
  a_id :: string
  a_title :: \<open>string option\<close>
  a_type :: \<open>string option\<close>
  a_content :: \<open>string option\<close>
  a_language :: \<open>string option\<close>

record Snapshot =
  sn_id :: string
  sn_timestamp :: nat
  sn_messageCount :: nat
  sn_history :: \<open>Message list\<close>
  sn_artifacts :: \<open>Artifact list\<close>

record Flow =
  f_id :: string
  f_name :: string
  history :: \<open>Message list\<close>
  snapshots :: \<open>Snapshot list\<close>
  artifacts :: \<open>Artifact list\<close>

text \<open>
  \<^verbatim>\<open>Flows\<close> is an object used as a dictionary. Its keys are the strings
  \<^verbatim>\<open>flow-<timestamp>\<close>, none of them an array index, so \<^verbatim>\<open>Object.keys\<close> lists them in
  insertion order: an association list, where assignment (\<open>AList.update\<close>) overwrites
  in place or appends, and \<^verbatim>\<open>delete\<close> (\<open>AList.delete\<close>) removes the key.
\<close>

type_synonym Flows = \<open>(string \<times> Flow) list\<close>

record AppState =
  isLoading :: bool
  flows :: Flows
  activeFlowId :: \<open>string option\<close>
  aiChat :: \<open>Message list option\<close>
  activeArtifactId :: \<open>string option\<close>
  historyStack :: \<open>Flow list\<close>
  redoStack :: \<open>Flow list\<close>

text \<open>
  \<open>aiChat\<close> is the Gateway session; of it the model keeps the history it was created
  from. The stacks grow at the end of the list (\<^verbatim>\<open>push\<close>) and shrink there (\<^verbatim>\<open>pop\<close>).
\<close>

text \<open>
  What the code reads and writes outside \<open>state\<close>: the two keys of
  \<^verbatim>\<open>localStorage\<close>, the message elements of \<^verbatim>\<open>DOM.chatHistoryEl\<close> (an element is the
  message it renders and the extra HTML attached to it), and the \<^verbatim>\<open>alert\<close> boxes
  shown so far.
\<close>

datatype Stored = Unparsable | Parsed Flows

record MessageElement =
  el_message :: Message
  el_extra :: string

record World = AppState +
  fluid_flows :: \<open>Stored option\<close>
  fluid_active_flow_id :: \<open>string option\<close>
  chatHistoryEl :: \<open>MessageElement list\<close>
  alerts :: \<open>string list\<close>

text \<open>
  A tool call \<^verbatim>\<open>{name, args}\<close>. \<open>args\<close> has the parameters that the three tool
  declarations name, each present or not; a key outside the declarations, which the
  spread of \<^verbatim>\<open>present_artifact\<close> would copy into the artifact, is not modelled.
\<close>

record Task =
  t_title :: \<open>string option\<close>
  t_priority :: \<open>string option\<close>

record ToolArgs =
  arg_title :: \<open>string option\<close>
  arg_type :: \<open>string option\<close>
  arg_content :: \<open>string option\<close>
  arg_language :: \<open>string option\<close>
  arg_tasks :: \<open>Task list option\<close>
  arg_artifactId :: \<open>string option\<close>
  arg_newContent :: \<open>string option\<close>

record FunctionCall =
  name :: string
  args :: ToolArgs

text \<open>
  An exception leaves the mutations made before it in place, so a function that may
  throw returns the exception, if any, together with the state it leaves.
\<close>

datatype error = TypeError | SyntaxError | RangeError | GatewayError | MarkedError

type_synonym outcome = \<open>error option \<times> World\<close>

definition and_then :: \<open>outcome \<Rightarrow> (World \<Rightarrow> outcome) \<Rightarrow> outcome\<close> where
  \<open>and_then r f = (case r of (None, s) \<Rightarrow> f s | (Some e, s) \<Rightarrow> (Some e, s))\<close>

section \<open>JavaScript helpers\<close>

text \<open>Truthiness of a string that may be null: null and the empty string are falsy.\<close>

definition truthy :: \<open>string option \<Rightarrow> bool\<close> where
  \<open>truthy x = (case x of None \<Rightarrow> False | Some t \<Rightarrow> t \<noteq> [])\<close>

text \<open>A null id used as a property key, or stored by \<^verbatim>\<open>setItem\<close>, is the string "null".\<close>

definition js_key :: \<open>string option \<Rightarrow> string\<close> where
  \<open>js_key x = (case x of None \<Rightarrow> ''null'' | Some t \<Rightarrow> t)\<close>

text \<open>A missing value inside a template literal prints as "undefined".\<close>

definition js_str :: \<open>string option \<Rightarrow> string\<close> where
  \<open>js_str x = (case x of None \<Rightarrow> ''undefined'' | Some t \<Rightarrow> t)\<close>

text \<open>A number inside a template literal prints in decimal.\<close>

definition digit_char :: \<open>nat \<Rightarrow> char\<close> where
  \<open>digit_char d = ''0123456789'' ! d\<close>

function show_nat :: \<open>nat \<Rightarrow> string\<close> where
  \<open>show_nat n = (if n < 10 then [digit_char n] else show_nat (n div 10) @ [digit_char (n mod 10)])\<close>
  by pat_completeness auto
termination
  by (relation \<open>measure (\<lambda>n. n)\<close>) auto

declare show_nat.simps [simp del]

definition isWhiteSpace :: \<open>char \<Rightarrow> bool\<close> where
  \<open>isWhiteSpace c = (of_char c \<in> {9, 10, 11, 12, 13, 32, 160 :: nat})\<close>

definition trim :: \<open>string \<Rightarrow> string\<close> where
  \<open>trim t = rev (dropWhile isWhiteSpace (rev (dropWhile isWhiteSpace t)))\<close>

text \<open>
  \<^verbatim>\<open>toLowerCase\<close>, on code units below 256: the letters A to Z and the capitals
  U+00C0 to U+00DE, the multiplication sign U+00D7 apart, move up by 32.
\<close>

definition isUpper :: \<open>char \<Rightarrow> bool\<close> where
  \<open>isUpper c =
     ((65 \<le> (of_char c :: nat) \<and> (of_char c :: nat) \<le> 90)
      \<or> (192 \<le> (of_char c :: nat) \<and> (of_char c :: nat) \<le> 222 \<and> (of_char c :: nat) \<noteq> 215))\<close>

definition toLowerCase :: \<open>string \<Rightarrow> string\<close> where
  \<open>toLowerCase t = map (\<lambda>c. if isUpper c then char_of (of_char c + 32 :: nat) else c) t\<close>

text \<open>
  \<^verbatim>\<open>JSON.parse(JSON.stringify(x))\<close> on a flow: a flow holds strings, numbers, arrays and
  plain objects only, so the copy is the same value in a fresh object; of a missing
  flow (\<^verbatim>\<open>undefined\<close>) \<^verbatim>\<open>JSON.stringify\<close> is \<^verbatim>\<open>undefined\<close>, which \<^verbatim>\<open>JSON.parse\<close>
  rejects with a SyntaxError.
\<close>

definition deepClone :: \<open>Flow option \<Rightarrow> error + Flow\<close> where
  \<open>deepClone x = (case x of None \<Rightarrow> Inl SyntaxError | Some f \<Rightarrow> Inr f)\<close>

text \<open>An object found in an array and then assigned to: the first match changes, in place.\<close>

fun update_first :: \<open>('a \<Rightarrow> bool) \<Rightarrow> ('a \<Rightarrow> 'a) \<Rightarrow> 'a list \<Rightarrow> 'a list\<close> where
  \<open>update_first p g [] = []\<close>
| \<open>update_first p g (x # xs) = (if p x then g x # xs else x # update_first p g xs)\<close>

section \<open>Core functions\<close>

definition setLoading :: \<open>bool \<Rightarrow> World \<Rightarrow> World\<close> where
  \<open>setLoading b s = s\<lparr>isLoading := b\<rparr>\<close>

definition saveFlows :: \<open>World \<Rightarrow> World\<close> where
  \<open>saveFlows s =
     s\<lparr>fluid_flows := Some (Parsed (flows s)),
       fluid_active_flow_id := Some (js_key (activeFlowId s))\<rparr>\<close>

text \<open>\<^verbatim>\<open>state.flows[state.activeFlowId!]\<close>\<close>

definition activeFlow :: \<open>World \<Rightarrow> Flow option\<close> where
  \<open>activeFlow s = map_of (flows s) (js_key (activeFlowId s))\<close>

definition appendMessage :: \<open>Role \<Rightarrow> string \<Rightarrow> string \<Rightarrow> World \<Rightarrow> outcome\<close> where
  \<open>appendMessage r text extraHtml s =
     (let message = \<lparr>role = r, parts = [text]\<rparr> in
      and_then
        (if truthy (activeFlowId s) then
           (case activeFlow s of
              None \<Rightarrow> (Some TypeError, s)
            | Some fl \<Rightarrow>
                (None, saveFlows (s\<lparr>flows :=
                   AList.update (js_key (activeFlowId s))
                     (fl\<lparr>history := history fl @ [message]\<rparr>) (flows s)\<rparr>)))
         else (None, s))
        (\<lambda>s1. (None, s1\<lparr>chatHistoryEl :=
                  chatHistoryEl s1 @ [\<lparr>el_message = message, el_extra = extraHtml\<rparr>]\<rparr>)))\<close>

subsection \<open>Undo and redo\<close>

definition pushUndoState :: \<open>World \<Rightarrow> outcome\<close> where
  \<open>pushUndoState s =
     (if \<not> truthy (activeFlowId s) then (None, s)
      else (case deepClone (activeFlow s) of
              Inl e \<Rightarrow> (Some e, s)
            | Inr currentFlow \<Rightarrow>
                (None, s\<lparr>historyStack := historyStack s @ [currentFlow], redoStack := []\<rparr>)))\<close>

subsection \<open>Artifact viewer\<close>

text \<open>
  \<^verbatim>\<open>renderArtifactViewer\<close> calls itself after it has moved the pointer to the last
  artifact. The first argument is the depth of call stack left; with none left the
  call fails with a RangeError, as the engine's stack overflow does.
\<close>

fun renderArtifactViewer :: \<open>nat \<Rightarrow> World \<Rightarrow> outcome\<close> where
  \<open>renderArtifactViewer 0 s = (Some RangeError, s)\<close>
| \<open>renderArtifactViewer (Suc n) s =
     (case activeFlow s of
        None \<Rightarrow> (None, s)
      | Some fl \<Rightarrow>
          if artifacts fl = [] then (None, s)
          else if \<not> truthy (activeArtifactId s)
                  \<or> find (\<lambda>a. Some (a_id a) = activeArtifactId s) (artifacts fl) = None
          then renderArtifactViewer n (s\<lparr>activeArtifactId := Some (a_id (last (artifacts fl)))\<rparr>)
          else (None, s))\<close>

subsection \<open>Conversation re-initialisation\<close>

definition nl :: string where
  \<open>nl = [char_of (10 :: nat)]\<close>

definition welcomeMessageText :: string where
  \<open>welcomeMessageText =
     ''Welcome to .fluid, sprite*. I am ~flow, your AI consultant.'' @ nl @ nl
     @ ''**My Core Functions:**'' @ nl
     @ ''*   **Process Design:** Describe a workflow, and I'll map it out, often with a Mermaid diagram.'' @ nl
     @ ''*   **Code Generation:** Request code, and I'll generate production-ready snippets.'' @ nl
     @ ''*   **Task Management:** I will identify action items and can create formal task lists for you.'' @ nl
     @ ''*   **Artifacts:** Any significant outputs like code or documents will appear in a dedicated viewer on your right.'' @ nl @ nl
     @ ''You can start by describing a process, or select a catalyst below to see me in action. How can I optimize your workflow today?''\<close>

text \<open>
  The value assigned to \<^verbatim>\<open>state.activeArtifactId\<close> by \<^verbatim>\<open>initializeChat\<close>:
  \<^verbatim>\<open>artifacts.length > 0 ? artifacts.find(a => a.id === activeArtifactId)?.id || artifacts[artifacts.length - 1].id : null\<close>
\<close>

definition resolveActiveArtifact :: \<open>Artifact list \<Rightarrow> string option \<Rightarrow> string option\<close> where
  \<open>resolveActiveArtifact arts cur =
     (if arts \<noteq> [] then
        (case find (\<lambda>a. Some (a_id a) = cur) arts of
           Some a \<Rightarrow> if a_id a \<noteq> [] then Some (a_id a) else Some (a_id (last arts))
         | None \<Rightarrow> Some (a_id (last arts)))
      else None)\<close>

text \<open>
  \<^verbatim>\<open>initializeChat\<close> is asynchronous; no other handler runs while it is suspended, so it
  is one step here. An exception inside it rejects its promise: a caller that awaits it
  (\<^verbatim>\<open>switchFlow\<close>, \<^verbatim>\<open>init\<close>) fails with it, a caller that does not (\<^verbatim>\<open>handleUndo\<close>,
  \<^verbatim>\<open>handleRedo\<close>, \<^verbatim>\<open>createNewFlow\<close>, \<^verbatim>\<open>deleteFlow\<close>) goes on from the state it left.
\<close>

definition initializeChat :: \<open>nat \<Rightarrow> bool \<Rightarrow> World \<Rightarrow> outcome\<close> where
  \<open>initializeChat stack softRefresh s =
     (let s1 = (setLoading True s)\<lparr>chatHistoryEl := []\<rparr>;
          s2 = (if \<not> softRefresh then s1\<lparr>historyStack := [], redoStack := []\<rparr> else s1)
      in case activeFlow s2 of
           None \<Rightarrow> (None, setLoading False s2)
         | Some fl \<Rightarrow>
             (let s3 = s2\<lparr>chatHistoryEl :=
                        (if history fl = []
                         then [\<lparr>el_message = \<lparr>role = Model, parts = [welcomeMessageText]\<rparr>, el_extra = []\<rparr>]
                         else map (\<lambda>m. \<lparr>el_message = m, el_extra = []\<rparr>) (history fl))\<rparr>;
                  s4 = s3\<lparr>aiChat := Some (map (\<lambda>m. \<lparr>role = role m, parts = parts m\<rparr>) (history fl))\<rparr>;
                  s5 = s4\<lparr>activeArtifactId := resolveActiveArtifact (artifacts fl) (activeArtifactId s4)\<rparr>
              in and_then (renderArtifactViewer stack s5) (\<lambda>s6. (None, setLoading False s6))))\<close>

definition handleUndo :: \<open>nat \<Rightarrow> World \<Rightarrow> outcome\<close> where
  \<open>handleUndo stack s =
     (if historyStack s = [] then (None, s)
      else (case deepClone (activeFlow s) of
              Inl e \<Rightarrow> (Some e, s)
            | Inr currentFlow \<Rightarrow>
                (let s1 = s\<lparr>redoStack := redoStack s @ [currentFlow]\<rparr>;
                     previousFlow = last (historyStack s1);
                     s2 = s1\<lparr>historyStack := butlast (historyStack s1)\<rparr>;
                     s3 = s2\<lparr>flows := AList.update (js_key (activeFlowId s2)) previousFlow (flows s2)\<rparr>
                 in (None, snd (initializeChat stack True (saveFlows s3))))))\<close>

definition handleRedo :: \<open>nat \<Rightarrow> World \<Rightarrow> outcome\<close> where
  \<open>handleRedo stack s =
     (if redoStack s = [] then (None, s)
      else (case deepClone (activeFlow s) of
              Inl e \<Rightarrow> (Some e, s)
            | Inr currentFlow \<Rightarrow>
                (let s1 = s\<lparr>historyStack := historyStack s @ [currentFlow]\<rparr>;
                     nextFlow = last (redoStack s1);
                     s2 = s1\<lparr>redoStack := butlast (redoStack s1)\<rparr>;
                     s3 = s2\<lparr>flows := AList.update (js_key (activeFlowId s2)) nextFlow (flows s2)\<rparr>
                 in (None, snd (initializeChat stack True (saveFlows s3))))))\<close>

subsection \<open>Tool calls\<close>

text \<open>
  \<^verbatim>\<open>renderTaskList\<close>: \<open>clock index\<close> is the reading of \<^verbatim>\<open>Date.now()\<close> in the iteration
  for the task at \<open>index\<close>. A task without priority makes \<^verbatim>\<open>toLowerCase\<close> fail, and a
  missing task array makes \<^verbatim>\<open>forEach\<close> fail, both with a TypeError.
\<close>

text \<open>The template literal appended for one task.\<close>

definition taskItem :: \<open>string \<Rightarrow> string option \<Rightarrow> string \<Rightarrow> string\<close> where
  \<open>taskItem taskId title priority =
     nl @ ''            <div class="task-item">'' @ nl
     @ ''                <input type="checkbox" id="'' @ taskId
     @ ''" onchange="this.parentElement.classList.toggle('completed')">'' @ nl
     @ ''                <label for="'' @ taskId @ ''">'' @ js_str title @ ''</label>'' @ nl
     @ ''                <span class="task-priority '' @ toLowerCase priority @ ''">'' @ priority @ ''</span>'' @ nl
     @ ''            </div>'' @ nl
     @ ''        ''\<close>

fun taskItems :: \<open>(nat \<Rightarrow> nat) \<Rightarrow> nat \<Rightarrow> Task list \<Rightarrow> error + string\<close> where
  \<open>taskItems clock index [] = Inr []\<close>
| \<open>taskItems clock index (task # tasks) =
     (case t_priority task of
        None \<Rightarrow> Inl TypeError
      | Some priority \<Rightarrow>
          (case taskItems clock (Suc index) tasks of
             Inl e \<Rightarrow> Inl e
           | Inr rest \<Rightarrow>
               Inr (taskItem (''task-'' @ show_nat (clock index) @ ''-'' @ show_nat index)
                      (t_title task) priority @ rest)))\<close>

definition renderTaskList :: \<open>(nat \<Rightarrow> nat) \<Rightarrow> Task list option \<Rightarrow> error + string\<close> where
  \<open>renderTaskList clock tasks =
     (case tasks of
        None \<Rightarrow> Inl TypeError
      | Some ts \<Rightarrow>
          (case taskItems clock 0 ts of
             Inl e \<Rightarrow> Inl e
           | Inr items \<Rightarrow> Inr (''<div class="task-list"><h3>Task List</h3>'' @ items @ ''</div>'')))\<close>

text \<open>
  \<^verbatim>\<open>renderArtifactContent\<close> draws an artifact; it touches the view only, so what the
  model keeps of it is whether it throws. For the types \<^verbatim>\<open>code\<close> and \<^verbatim>\<open>mermaid\<close> the content
  goes into a template literal, a string whatever the content is; for the other types
  the content itself is handed to \<^verbatim>\<open>marked.parse\<close>, which rejects a content that is
  undefined. \<^verbatim>\<open>handleFunctionCall\<close> awaits it, so there the failure is thrown on.
\<close>

definition renderArtifactContent :: \<open>Artifact \<Rightarrow> error option\<close> where
  \<open>renderArtifactContent artifact =
     (if a_type artifact = Some ''code'' \<or> a_type artifact = Some ''mermaid'' then None
      else (case a_content artifact of None \<Rightarrow> Some MarkedError | Some content \<Rightarrow> None))\<close>

text \<open>
  \<^verbatim>\<open>handleFunctionCall\<close>: \<open>clock 0\<close> is the reading of \<^verbatim>\<open>Date.now()\<close> that names a new
  artifact. \<^verbatim>\<open>activeFlow\<close> is read before \<^verbatim>\<open>pushUndoState\<close>, which leaves
  \<^verbatim>\<open>state.flows\<close> as it is; it is the live object, so writing to it is writing to its
  entry of \<^verbatim>\<open>state.flows\<close>.
\<close>

definition handleFunctionCall :: \<open>nat \<Rightarrow> (nat \<Rightarrow> nat) \<Rightarrow> FunctionCall \<Rightarrow> World \<Rightarrow> outcome\<close> where
  \<open>handleFunctionCall stack clock fc s =
     (let live = activeFlow s; key = js_key (activeFlowId s) in
      and_then (pushUndoState s) (\<lambda>s1.
        if name fc = ''present_artifact'' then
          (case live of
             None \<Rightarrow> (Some TypeError, s1)
           | Some fl \<Rightarrow>
               (let newArtifact =
                      \<lparr>a_id = ''artifact-'' @ show_nat (clock 0),
                       a_title = arg_title (args fc),
                       a_type = arg_type (args fc),
                       a_content = arg_content (args fc),
                       a_language = arg_language (args fc)\<rparr>;
                    s2 = s1\<lparr>flows := AList.update key
                               (fl\<lparr>artifacts := artifacts fl @ [newArtifact]\<rparr>) (flows s1)\<rparr>;
                    s3 = s2\<lparr>activeArtifactId := Some (a_id newArtifact)\<rparr>
                in renderArtifactViewer stack (saveFlows s3)))
        else if name fc = ''create_task_list'' then
          (case renderTaskList clock (arg_tasks (args fc)) of
             Inl e \<Rightarrow> (Some e, s1)
           | Inr taskListHtml \<Rightarrow>
               appendMessage Model ''I have created the following task list for you:'' taskListHtml s1)
        else if name fc = ''modify_artifact'' then
          (case live of
             None \<Rightarrow> (Some TypeError, s1)
           | Some fl \<Rightarrow>
               (case find (\<lambda>a. Some (a_id a) = arg_artifactId (args fc)) (artifacts fl) of
                  Some artifactToModify \<Rightarrow>
                    (let s2 = saveFlows (s1\<lparr>flows := AList.update key
                                (fl\<lparr>artifacts :=
                                    update_first (\<lambda>a. Some (a_id a) = arg_artifactId (args fc))
                                      (\<lambda>a. a\<lparr>a_content := arg_newContent (args fc)\<rparr>)
                                      (artifacts fl)\<rparr>) (flows s1)\<rparr>)
                     in and_then
                          (if activeArtifactId s2 = arg_artifactId (args fc)
                           then (renderArtifactContent
                                   (artifactToModify\<lparr>a_content := arg_newContent (args fc)\<rparr>), s2)
                           else (None, s2))
                          (appendMessage Model
                             (''I have updated the artifact: *'' @ js_str (a_title artifactToModify) @ ''*.'')
                             []))
                | None \<Rightarrow>
                    appendMessage Model
                      (''Apologies, I could not find an artifact with the ID ''
                         @ js_str (arg_artifactId (args fc)) @ ''.'')
                      [] s1))
        else (None, s1)))\<close>

subsection \<open>Submitting a message\<close>

text \<open>
  What \<^verbatim>\<open>sendMessage\<close> does is an input: it fails, or it answers with a text (possibly
  none) and the tool calls. \<open>clock i\<close> gives the clock readings while the call at
  position \<open>i\<close> of the answer is handled.
\<close>

datatype Response = Failed | Reply \<open>string option\<close> \<open>FunctionCall list\<close>

text \<open>The loop \<^verbatim>\<open>for (const fc of functionCalls) await handleFunctionCall(fc)\<close>.\<close>

fun handleFunctionCalls ::
  \<open>nat \<Rightarrow> (nat \<Rightarrow> nat \<Rightarrow> nat) \<Rightarrow> nat \<Rightarrow> FunctionCall list \<Rightarrow> World \<Rightarrow> outcome\<close> where
  \<open>handleFunctionCalls stack clock i [] s = (None, s)\<close>
| \<open>handleFunctionCalls stack clock i (fc # fcs) s =
     and_then (handleFunctionCall stack (clock i) fc s) (handleFunctionCalls stack clock (Suc i) fcs)\<close>

text \<open>The body of the \<^verbatim>\<open>try\<close> block of \<^verbatim>\<open>handleFormSubmit\<close>.\<close>

definition sendAndDispatch :: \<open>nat \<Rightarrow> (nat \<Rightarrow> nat \<Rightarrow> nat) \<Rightarrow> Response \<Rightarrow> World \<Rightarrow> outcome\<close> where
  \<open>sendAndDispatch stack clock response s =
     (case aiChat s of
        None \<Rightarrow> (Some TypeError, s)
      | Some chat \<Rightarrow>
          (case response of
             Failed \<Rightarrow> (Some GatewayError, s)
           | Reply text functionCalls \<Rightarrow>
               and_then
                 (case text of
                    None \<Rightarrow> (None, s)
                  | Some t \<Rightarrow> if t \<noteq> [] then appendMessage Model t [] s else (None, s))
                 (handleFunctionCalls stack clock 0 functionCalls)))\<close>

definition handleFormSubmit ::
  \<open>nat \<Rightarrow> (nat \<Rightarrow> nat \<Rightarrow> nat) \<Rightarrow> string \<Rightarrow> Response \<Rightarrow> World \<Rightarrow> outcome\<close> where
  \<open>handleFormSubmit stack clock input response s =
     (if isLoading s then (None, s)
      else (let userMessage = trim input in
        if userMessage = [] then (None, s)
        else
          and_then (pushUndoState s) (\<lambda>s1.
          and_then (appendMessage User userMessage [] s1) (\<lambda>s2.
            (case sendAndDispatch stack clock response (setLoading True s2) of
               (None, s3) \<Rightarrow> (None, setLoading False s3)
             | (Some e, s3) \<Rightarrow>
                 (case appendMessage Model ''apologies sprite*. an error occurred. please try again.'' [] s3 of
                    (e', s4) \<Rightarrow> (e', setLoading False s4)))))))\<close>

subsection \<open>Flow management\<close>

text \<open>\<^verbatim>\<open>Object.keys(state.flows)[0]\<close>, undefined when there is no key.\<close>

definition firstKey :: \<open>Flows \<Rightarrow> string option\<close> where
  \<open>firstKey fs = (case map fst fs of [] \<Rightarrow> None | k # ks \<Rightarrow> Some k)\<close>

text \<open>
  The properties every plain object inherits from \<^verbatim>\<open>Object.prototype\<close>. \<^verbatim>\<open>loadFlows\<close>
  tests \<^verbatim>\<open>state.flows[activeId]\<close> for truthiness, and an inherited property is truthy as
  a flow is.
\<close>

definition inheritedKeys :: \<open>string list\<close> where
  \<open>inheritedKeys =
     [''constructor'', ''__defineGetter__'', ''__defineSetter__'', ''hasOwnProperty'',
      ''__lookupGetter__'', ''__lookupSetter__'', ''isPrototypeOf'', ''propertyIsEnumerable'',
      ''toString'', ''valueOf'', ''__proto__'', ''toLocaleString'']\<close>

definition loadFlows :: \<open>nat \<Rightarrow> World \<Rightarrow> World\<close> where
  \<open>loadFlows now s =
     (let s1 = s\<lparr>flows := (case fluid_flows s of Some (Parsed fs) \<Rightarrow> fs | _ \<Rightarrow> [])\<rparr>;
          s2 = (if length (map fst (flows s1)) = 0 then
                  (let flowId = ''flow-'' @ show_nat now in
                   s1\<lparr>flows := AList.update flowId
                        \<lparr>f_id = flowId, f_name = ''My First Flow'', history = [], snapshots = [], artifacts = []\<rparr>
                        (flows s1),
                      activeFlowId := Some flowId\<rparr>)
                else s1);
          activeId = fluid_active_flow_id s2
      in s2\<lparr>activeFlowId :=
              (if truthy activeId
                  \<and> (map_of (flows s2) (js_key activeId) \<noteq> None
                      \<or> js_key activeId \<in> set inheritedKeys)
               then activeId else firstKey (flows s2))\<rparr>)\<close>

definition switchFlow :: \<open>nat \<Rightarrow> string \<Rightarrow> World \<Rightarrow> outcome\<close> where
  \<open>switchFlow stack flowId s =
     (if Some flowId = activeFlowId s then (None, s)
      else initializeChat stack False (saveFlows (s\<lparr>activeFlowId := Some flowId\<rparr>)))\<close>

definition createNewFlow :: \<open>nat \<Rightarrow> nat \<Rightarrow> World \<Rightarrow> outcome\<close> where
  \<open>createNewFlow stack now s =
     and_then (pushUndoState s) (\<lambda>s1.
       (let flowId = ''flow-'' @ show_nat now;
            count = length (map fst (flows s1)) + 1;
            s2 = s1\<lparr>flows := AList.update flowId
                      \<lparr>f_id = flowId, f_name = ''New Flow '' @ show_nat count,
                       history = [], snapshots = [], artifacts = []\<rparr> (flows s1),
                    activeFlowId := Some flowId\<rparr>
        in (None, snd (initializeChat stack False (saveFlows s2)))))\<close>

text \<open>\<^verbatim>\<open>renameFlow\<close>: \<open>answer\<close> is what \<^verbatim>\<open>prompt\<close> returns, null when it is cancelled.\<close>

definition renameFlow :: \<open>string \<Rightarrow> string option \<Rightarrow> World \<Rightarrow> outcome\<close> where
  \<open>renameFlow flowId answer s =
     and_then (pushUndoState s) (\<lambda>s1.
       (case map_of (flows s1) flowId of
          None \<Rightarrow> (Some TypeError, s1)
        | Some flow \<Rightarrow>
            (case answer of
               None \<Rightarrow> (None, s1)
             | Some newName \<Rightarrow>
                 if newName \<noteq> [] \<and> trim newName \<noteq> []
                 then (None, saveFlows (s1\<lparr>flows :=
                         AList.update flowId (flow\<lparr>f_name := trim newName\<rparr>) (flows s1)\<rparr>))
                 else (None, s1))))\<close>

text \<open>\<^verbatim>\<open>deleteFlow\<close>: \<open>confirmed\<close> is what \<^verbatim>\<open>confirm\<close> returns.\<close>

definition deleteFlow :: \<open>nat \<Rightarrow> string \<Rightarrow> bool \<Rightarrow> World \<Rightarrow> outcome\<close> where
  \<open>deleteFlow stack flowId confirmed s =
     (if length (map fst (flows s)) \<le> 1
      then (None, s\<lparr>alerts := alerts s @ [''Cannot delete the last flow.'']\<rparr>)
      else (case map_of (flows s) flowId of
              None \<Rightarrow> (Some TypeError, s)
            | Some fl \<Rightarrow>
                if confirmed then
                  and_then (pushUndoState s) (\<lambda>s1.
                    (let s2 = s1\<lparr>flows := AList.delete flowId (flows s1)\<rparr>;
                         s3 = (if activeFlowId s2 = Some flowId
                               then s2\<lparr>activeFlowId := firstKey (flows s2)\<rparr> else s2)
                     in (None, snd (initializeChat stack False (saveFlows s3)))))
                else (None, s)))\<close>

text \<open>The state the module starts with, before \<^verbatim>\<open>init\<close> runs, over a given \<^verbatim>\<open>localStorage\<close>.\<close>

definition initialWorld :: \<open>Stored option \<Rightarrow> string option \<Rightarrow> World\<close> where
  \<open>initialWorld stored storedActive =
     \<lparr>isLoading = False, flows = [], activeFlowId = None, aiChat = None,
      activeArtifactId = None, historyStack = [], redoStack = [],
      fluid_flows = stored, fluid_active_flow_id = storedActive,
      chatHistoryEl = [], alerts = []\<rparr>\<close>

definition init :: \<open>nat \<Rightarrow> nat \<Rightarrow> World \<Rightarrow> outcome\<close> where
  \<open>init stack now s = initializeChat stack False (loadFlows now s)\<close>

subsection \<open>The checkpoint over a store of objects\<close>

text \<open>
  In the rest of the model a flow is a value. To see which objects a checkpoint is made
  of, this section has \<^verbatim>\<open>pushUndoState\<close> once more, over a store of objects: an address
  is an index into the store, a value is a string, a number or the address of an array
  or of an object with named properties.
\<close>

datatype jsval = VStr string | VNum nat | VRef nat

datatype obj = Arr \<open>jsval list\<close> | Obj \<open>(string \<times> jsval) list\<close>

type_synonym heap = \<open>obj list\<close>

text \<open>
  The text that \<^verbatim>\<open>JSON.stringify\<close> writes and \<^verbatim>\<open>JSON.parse\<close> reads, kept as its syntax
  tree.
\<close>

datatype json = JS string | JN nat | JA \<open>json list\<close> | JO \<open>(string \<times> json) list\<close>

fun children :: \<open>obj \<Rightarrow> jsval list\<close> where
  \<open>children (Arr vs) = vs\<close>
| \<open>children (Obj fs) = map snd fs\<close>

text \<open>
  \<^verbatim>\<open>JSON.stringify\<close> follows the addresses; on a circular structure it throws. The first
  argument of \<open>stringify\<close> bounds the nesting: a structure nested deeper than the store
  has objects passes through one of them twice, so with the bound of \<open>JSON_stringify\<close> the
  answer \<open>None\<close> is that exception.
\<close>

fun stringify :: \<open>nat \<Rightarrow> heap \<Rightarrow> jsval \<Rightarrow> json option\<close> where
  \<open>stringify n h (VStr t) = Some (JS t)\<close>
| \<open>stringify n h (VNum k) = Some (JN k)\<close>
| \<open>stringify 0 h (VRef a) = None\<close>
| \<open>stringify (Suc n) h (VRef a) =
     (if a < length h then
        (case h ! a of
           Arr vs \<Rightarrow> map_option JA (those (map (stringify n h) vs))
         | Obj fs \<Rightarrow>
             map_option JO (those (map (\<lambda>kv. map_option (Pair (fst kv)) (stringify n h (snd kv))) fs)))
      else None)\<close>

definition JSON_stringify :: \<open>heap \<Rightarrow> jsval \<Rightarrow> json option\<close> where
  \<open>JSON_stringify h v = stringify (Suc (length h)) h v\<close>

text \<open>
  \<^verbatim>\<open>JSON.parse\<close> builds the value anew: every array and every object of the text is a
  new object of the store, at the next free address.
\<close>

fun JSON_parse :: \<open>json \<Rightarrow> heap \<Rightarrow> jsval \<times> heap\<close>
  and parse_list :: \<open>json list \<Rightarrow> heap \<Rightarrow> jsval list \<times> heap\<close>
  and parse_fields :: \<open>(string \<times> json) list \<Rightarrow> heap \<Rightarrow> (string \<times> jsval) list \<times> heap\<close>
where
  \<open>JSON_parse (JS t) h = (VStr t, h)\<close>
| \<open>JSON_parse (JN k) h = (VNum k, h)\<close>
| \<open>JSON_parse (JA xs) h =
     (case parse_list xs h of (vs, h') \<Rightarrow> (VRef (length h'), h' @ [Arr vs]))\<close>
| \<open>JSON_parse (JO fs) h =
     (case parse_fields fs h of (vs, h') \<Rightarrow> (VRef (length h'), h' @ [Obj vs]))\<close>
| \<open>parse_list [] h = ([], h)\<close>
| \<open>parse_list (x # xs) h =
     (case JSON_parse x h of (v, h1) \<Rightarrow>
        (case parse_list xs h1 of (vs, h2) \<Rightarrow> (v # vs, h2)))\<close>
| \<open>parse_fields [] h = ([], h)\<close>
| \<open>parse_fields (kx # fs) h =
     (case JSON_parse (snd kx) h of (v, h1) \<Rightarrow>
        (case parse_fields fs h1 of (vs, h2) \<Rightarrow> ((fst kx, v) # vs, h2)))\<close>

text \<open>
  A value, and an object through what it holds, refers into the addresses from \<open>lo\<close> up to
  \<open>hi\<close> only; a store without dangling addresses; the addresses a value leads to.
\<close>

fun val_in :: \<open>nat \<Rightarrow> nat \<Rightarrow> jsval \<Rightarrow> bool\<close> where
  \<open>val_in lo hi (VRef a) = (lo \<le> a \<and> a < hi)\<close>
| \<open>val_in lo hi (VStr t) = True\<close>
| \<open>val_in lo hi (VNum k) = True\<close>

definition obj_in :: \<open>nat \<Rightarrow> nat \<Rightarrow> obj \<Rightarrow> bool\<close> where
  \<open>obj_in lo hi ob = list_all (val_in lo hi) (children ob)\<close>

definition wf_heap :: \<open>heap \<Rightarrow> bool\<close> where
  \<open>wf_heap h = list_all (obj_in 0 (length h)) h\<close>

inductive_set reach :: \<open>heap \<Rightarrow> jsval \<Rightarrow> nat set\<close> for h :: heap and v :: jsval where
  root: \<open>v = VRef a \<Longrightarrow> a \<in> reach h v\<close>
| step: \<open>a \<in> reach h v \<Longrightarrow> a < length h \<Longrightarrow> VRef b \<in> set (children (h ! a)) \<Longrightarrow> b \<in> reach h v\<close>

text \<open>
  What parsing allocates: the old store is a prefix of the new one, and the new objects
  refer to new objects only.
\<close>

definition allocated :: \<open>heap \<Rightarrow> heap \<Rightarrow> bool\<close> where
  \<open>allocated h h' =
     (take (length h) h' = h \<and> length h \<le> length h'
      \<and> list_all (obj_in (length h) (length h')) (drop (length h) h'))\<close>

text \<open>
  What \<^verbatim>\<open>JSON.stringify\<close> writes for a flow: the properties in the order in which the
  code's object literals put them, a property that is undefined left out.
\<close>

definition opt_field :: \<open>string \<Rightarrow> string option \<Rightarrow> (string \<times> json) list\<close> where
  \<open>opt_field k x = (case x of None \<Rightarrow> [] | Some t \<Rightarrow> [(k, JS t)])\<close>

definition message_json :: \<open>Message \<Rightarrow> json\<close> where
  \<open>message_json m =
     JO [(''role'', JS (case role m of User \<Rightarrow> ''user'' | Model \<Rightarrow> ''model'')),
         (''parts'', JA (map (\<lambda>t. JO [(''text'', JS t)]) (parts m)))]\<close>

definition artifact_json :: \<open>Artifact \<Rightarrow> json\<close> where
  \<open>artifact_json a =
     JO ((''id'', JS (a_id a)) # opt_field ''title'' (a_title a) @ opt_field ''type'' (a_type a)
         @ opt_field ''content'' (a_content a) @ opt_field ''language'' (a_language a))\<close>

definition snapshot_json :: \<open>Snapshot \<Rightarrow> json\<close> where
  \<open>snapshot_json sn =
     JO [(''id'', JS (sn_id sn)), (''timestamp'', JN (sn_timestamp sn)),
         (''messageCount'', JN (sn_messageCount sn)),
         (''history'', JA (map message_json (sn_history sn))),
         (''artifacts'', JA (map artifact_json (sn_artifacts sn)))]\<close>

definition flow_json :: \<open>Flow \<Rightarrow> json\<close> where
  \<open>flow_json fl =
     JO [(''id'', JS (f_id fl)), (''name'', JS (f_name fl)),
         (''history'', JA (map message_json (history fl))),
         (''snapshots'', JA (map snapshot_json (snapshots fl))),
         (''artifacts'', JA (map artifact_json (artifacts fl)))]\<close>

text \<open>
  The part of \<^verbatim>\<open>state\<close> that \<^verbatim>\<open>pushUndoState\<close> touches, with the flows and the entries of
  the two stacks as addresses into the store, and \<^verbatim>\<open>pushUndoState\<close> over it.
\<close>

record Store =
  objects :: heap
  s_flows :: \<open>(string \<times> nat) list\<close>
  s_activeFlowId :: \<open>string option\<close>
  s_historyStack :: \<open>jsval list\<close>
  s_redoStack :: \<open>jsval list\<close>

definition pushUndoState_store :: \<open>Store \<Rightarrow> error option \<times> Store\<close> where
  \<open>pushUndoState_store st =
     (if \<not> truthy (s_activeFlowId st) then (None, st)
      else (case map_of (s_flows st) (js_key (s_activeFlowId st)) of
              None \<Rightarrow> (Some SyntaxError, st)
            | Some a \<Rightarrow>
                (case JSON_stringify (objects st) (VRef a) of
                   None \<Rightarrow> (Some TypeError, st)
                 | Some text \<Rightarrow>
                     (case JSON_parse text (objects st) of
                        (currentFlow, h') \<Rightarrow>
                          (None, st\<lparr>objects := h',
                                    s_historyStack := s_historyStack st @ [currentFlow],
                                    s_redoStack := []\<rparr>)))))\<close>

section \<open>Definitions used to state the properties\<close>

text \<open>\<open>n\<close> checkpoints in a row, with no undo in between.\<close>

fun checkpoints :: \<open>nat \<Rightarrow> World \<Rightarrow> outcome\<close> where
  \<open>checkpoints 0 s = (None, s)\<close>
| \<open>checkpoints (Suc n) s = and_then (pushUndoState s) (checkpoints n)\<close>

text \<open>
  The resolution rule for the active artifact, in the words of the specification: a
  pointer that is set (not null, not the empty string) and names an artifact of the
  sequence is kept; otherwise the pointer falls back to the last artifact, or to null
  when there is none.
\<close>

definition spec_resolve :: \<open>Artifact list \<Rightarrow> string option \<Rightarrow> string option\<close> where
  \<open>spec_resolve arts cur =
     (if truthy cur \<and> cur \<in> set (map (\<lambda>a. Some (a_id a)) arts) then cur
      else if arts = [] then None
      else Some (a_id (last arts)))\<close>

text \<open>
  What a submission leaves behind, for the flow with key \<open>fid\<close>: that flow is the active
  one, the undo stack starts with \<open>K\<close>, the redo stack is empty, the history of the flow
  starts with \<open>H\<close>, and the flows are persisted as they are.
\<close>

definition extends :: \<open>string \<Rightarrow> Flow list \<Rightarrow> Message list \<Rightarrow> World \<Rightarrow> bool\<close> where
  \<open>extends fid K H s =
     (activeFlowId s = Some fid \<and> prefix K (historyStack s) \<and> redoStack s = []
      \<and> (case map_of (flows s) fid of None \<Rightarrow> False | Some fl \<Rightarrow> prefix H (history fl))
      \<and> fluid_flows s = Some (Parsed (flows s)))\<close>

subsection \<open>A store with two flows\<close>

definition exArtifact :: Artifact where
  \<open>exArtifact = \<lparr>a_id = ''artifact-1'', a_title = Some ''Plan'', a_type = Some ''plan'',
                  a_content = Some ''v1'', a_language = None\<rparr>\<close>

definition exFlowA0 :: Flow where
  \<open>exFlowA0 = \<lparr>f_id = ''flow-1'', f_name = ''My First Flow'',
               history = [\<lparr>role = User, parts = [''design X'']\<rparr>], snapshots = [], artifacts = []\<rparr>\<close>

definition exFlowA :: Flow where
  \<open>exFlowA = exFlowA0\<lparr>artifacts := [exArtifact]\<rparr>\<close>

definition exFlowA2 :: Flow where
  \<open>exFlowA2 = exFlowA0\<lparr>artifacts := [exArtifact\<lparr>a_content := Some ''v2''\<rparr>]\<rparr>\<close>

definition exFlowB :: Flow where
  \<open>exFlowB = \<lparr>f_id = ''flow-2'', f_name = ''New Flow 2'', history = [], snapshots = [], artifacts = []\<rparr>\<close>

definition exWorld :: World where
  \<open>exWorld =
     \<lparr>isLoading = False,
      flows = [(''flow-1'', exFlowA), (''flow-2'', exFlowB)],
      activeFlowId = Some ''flow-1'',
      aiChat = Some (history exFlowA),
      activeArtifactId = Some ''artifact-1'',
      historyStack = [exFlowA0],
      redoStack = [exFlowA2],
      fluid_flows = Some (Parsed [(''flow-1'', exFlowA), (''flow-2'', exFlowB)]),
      fluid_active_flow_id = Some ''flow-1'',
      chatHistoryEl = map (\<lambda>m. \<lparr>el_message = m, el_extra = []\<rparr>) (history exFlowA),
      alerts = []\<rparr>\<close>

definition exWorldSingle :: World where
  \<open>exWorldSingle = exWorld\<lparr>flows := [(''flow-1'', exFlowA)]\<rparr>\<close>

definition noArgs :: ToolArgs where
  \<open>noArgs = \<lparr>arg_title = None, arg_type = None, arg_content = None, arg_language = None,
             arg_tasks = None, arg_artifactId = None, arg_newContent = None\<rparr>\<close>

definition exUnknown :: FunctionCall where
  \<open>exUnknown = \<lparr>name = ''delete_artifact'', args = noArgs\<lparr>arg_artifactId := Some ''artifact-1''\<rparr>\<rparr>\<close>

definition exModifyMissing :: FunctionCall where
  \<open>exModifyMissing =
     \<lparr>name = ''modify_artifact'',
      args = noArgs\<lparr>arg_artifactId := Some ''artifact-9'', arg_newContent := Some ''v2''\<rparr>\<rparr>\<close>

definition exModify :: FunctionCall where
  \<open>exModify =
     \<lparr>name = ''modify_artifact'',
      args = noArgs\<lparr>arg_artifactId := Some ''artifact-1'', arg_newContent := Some ''v2''\<rparr>\<rparr>\<close>

definition exModifyNoContent :: FunctionCall where
  \<open>exModifyNoContent =
     \<lparr>name = ''modify_artifact'', args = noArgs\<lparr>arg_artifactId := Some ''artifact-1''\<rparr>\<rparr>\<close>

definition exPresent :: FunctionCall where
  \<open>exPresent =
     \<lparr>name = ''present_artifact'',
      args = noArgs\<lparr>arg_title := Some ''Plan'', arg_type := Some ''plan'', arg_content := Some ''v1''\<rparr>\<rparr>\<close>

subsection \<open>The first flow of that store, as objects\<close>

definition exObjects :: heap where
  \<open>exObjects = snd (JSON_parse (flow_json exFlowA2) (snd (JSON_parse (flow_json exFlowA) [])))\<close>

definition exStore :: Store where
  \<open>exStore =
     \<lparr>objects = exObjects,
      s_flows = [(''flow-1'', 7)],
      s_activeFlowId = Some ''flow-1'',
      s_historyStack = [],
      s_redoStack = [VRef 15]\<rparr>\<close>

subsection \<open>A first run\<close>

text \<open>
  The state after \<^verbatim>\<open>init\<close> on an empty \<^verbatim>\<open>localStorage\<close>, and an answer of the Gateway
  that presents two artifacts.
\<close>

definition firstRun :: World where
  \<open>firstRun = snd (init 1 1700000000000 (initialWorld None None))\<close>

definition twoArtifacts :: Response where
  \<open>twoArtifacts =
     Reply None [exPresent, exPresent\<lparr>args := (args exPresent)\<lparr>arg_title := Some ''Diagram''\<rparr>\<rparr>]\<close>

section \<open>Basic facts\<close>

lemma and_then_None [simp]: \<open>and_then (None, s) f = f s\<close>
  by (simp add: and_then_def)

lemma and_then_Some [simp]: \<open>and_then (Some e, s) f = (Some e, s)\<close>
  by (simp add: and_then_def)

lemma snd_and_then_ret:
  \<open>snd (and_then r (\<lambda>s. (None, g s))) = (if fst r = None then g (snd r) else snd r)\<close>
  by (cases r; cases \<open>fst r\<close>) (auto simp: and_then_def)

lemma truthy_simps [simp]: \<open>truthy None = False\<close> \<open>truthy (Some t) = (t \<noteq> [])\<close>
  by (simp_all add: truthy_def)

lemma js_key_Some [simp]: \<open>js_key (Some t) = t\<close>
  by (simp add: js_key_def)

lemma activeFlow_Some: \<open>activeFlowId s = Some fid \<Longrightarrow> activeFlow s = map_of (flows s) fid\<close>
  by (simp add: activeFlow_def)

text \<open>The viewer moves the active-artifact pointer and nothing else.\<close>

lemma renderArtifactViewer_frame:
  \<open>flows (snd (renderArtifactViewer n s)) = flows s
   \<and> activeFlowId (snd (renderArtifactViewer n s)) = activeFlowId s
   \<and> historyStack (snd (renderArtifactViewer n s)) = historyStack s
   \<and> redoStack (snd (renderArtifactViewer n s)) = redoStack s
   \<and> fluid_flows (snd (renderArtifactViewer n s)) = fluid_flows s
   \<and> chatHistoryEl (snd (renderArtifactViewer n s)) = chatHistoryEl s\<close>
  by (induction n arbitrary: s) (auto split: option.splits simp: activeFlow_def)

lemma initializeChat_soft_frame:
  \<open>flows (snd (initializeChat n True s)) = flows s
   \<and> activeFlowId (snd (initializeChat n True s)) = activeFlowId s
   \<and> historyStack (snd (initializeChat n True s)) = historyStack s
   \<and> redoStack (snd (initializeChat n True s)) = redoStack s\<close>
  by (simp add: initializeChat_def Let_def setLoading_def activeFlow_def snd_and_then_ret
        renderArtifactViewer_frame split: option.splits)

lemma initializeChat_hard_frame:
  \<open>flows (snd (initializeChat n False s)) = flows s
   \<and> activeFlowId (snd (initializeChat n False s)) = activeFlowId s
   \<and> historyStack (snd (initializeChat n False s)) = []
   \<and> redoStack (snd (initializeChat n False s)) = []\<close>
  by (simp add: initializeChat_def Let_def setLoading_def activeFlow_def snd_and_then_ret
        renderArtifactViewer_frame split: option.splits)

lemma pushUndoState_active:
  assumes \<open>activeFlowId s = Some fid\<close> \<open>fid \<noteq> []\<close> \<open>map_of (flows s) fid = Some fl\<close>
  shows \<open>pushUndoState s = (None, s\<lparr>historyStack := historyStack s @ [fl], redoStack := []\<rparr>)\<close>
  using assms by (simp add: pushUndoState_def deepClone_def activeFlow_Some)

lemma appendMessage_stacks:
  \<open>historyStack (snd (appendMessage r t x s)) = historyStack s
   \<and> redoStack (snd (appendMessage r t x s)) = redoStack s\<close>
  by (simp add: appendMessage_def Let_def snd_and_then_ret saveFlows_def split: option.splits)

section \<open>Undo and redo are inverse to each other\<close>

lemma handleUndo_effect:
  assumes \<open>activeFlowId s = Some fid\<close> \<open>map_of (flows s) fid = Some cur\<close> \<open>historyStack s \<noteq> []\<close>
  shows \<open>fst (handleUndo n s) = None
    \<and> flows (snd (handleUndo n s)) = AList.update fid (last (historyStack s)) (flows s)
    \<and> activeFlowId (snd (handleUndo n s)) = Some fid
    \<and> historyStack (snd (handleUndo n s)) = butlast (historyStack s)
    \<and> redoStack (snd (handleUndo n s)) = redoStack s @ [cur]\<close>
  using assms
  by (simp add: handleUndo_def deepClone_def activeFlow_Some Let_def initializeChat_soft_frame
        saveFlows_def)

lemma handleRedo_effect:
  assumes \<open>activeFlowId s = Some fid\<close> \<open>map_of (flows s) fid = Some cur\<close> \<open>redoStack s \<noteq> []\<close>
  shows \<open>fst (handleRedo n s) = None
    \<and> flows (snd (handleRedo n s)) = AList.update fid (last (redoStack s)) (flows s)
    \<and> activeFlowId (snd (handleRedo n s)) = Some fid
    \<and> redoStack (snd (handleRedo n s)) = butlast (redoStack s)
    \<and> historyStack (snd (handleRedo n s)) = historyStack s @ [cur]\<close>
  using assms
  by (simp add: handleRedo_def deepClone_def activeFlow_Some Let_def initializeChat_soft_frame
        saveFlows_def)

text \<open>
  Claim C1. In a state whose active flow \<open>cur\<close> exists: with a non-empty undo stack,
  \<open>handleUndo\<close> installs the top of the undo stack as the active flow, and \<open>handleRedo\<close>
  right after it gives back the flow \<open>cur\<close>, the whole flow store and both stacks as they
  were before the undo; with a non-empty redo stack the same holds for \<open>handleRedo\<close>
  followed by \<open>handleUndo\<close>. Neither call throws.
\<close>

theorem undo_redo_inverse:
  assumes act: \<open>activeFlowId s = Some fid\<close> and cur: \<open>map_of (flows s) fid = Some cur\<close>
  shows \<open>(historyStack s \<noteq> [] \<longrightarrow>
            fst (handleUndo n s) = None
          \<and> fst (handleRedo m (snd (handleUndo n s))) = None
          \<and> activeFlow (snd (handleUndo n s)) = Some (last (historyStack s))
          \<and> activeFlow (snd (handleRedo m (snd (handleUndo n s)))) = Some cur
          \<and> flows (snd (handleRedo m (snd (handleUndo n s)))) = flows s
          \<and> activeFlowId (snd (handleRedo m (snd (handleUndo n s)))) = activeFlowId s
          \<and> historyStack (snd (handleRedo m (snd (handleUndo n s)))) = historyStack s
          \<and> redoStack (snd (handleRedo m (snd (handleUndo n s)))) = redoStack s)
       \<and> (redoStack s \<noteq> [] \<longrightarrow>
            fst (handleRedo n s) = None
          \<and> fst (handleUndo m (snd (handleRedo n s))) = None
          \<and> activeFlow (snd (handleRedo n s)) = Some (last (redoStack s))
          \<and> activeFlow (snd (handleUndo m (snd (handleRedo n s)))) = Some cur
          \<and> flows (snd (handleUndo m (snd (handleRedo n s)))) = flows s
          \<and> activeFlowId (snd (handleUndo m (snd (handleRedo n s)))) = activeFlowId s
          \<and> historyStack (snd (handleUndo m (snd (handleRedo n s)))) = historyStack s
          \<and> redoStack (snd (handleUndo m (snd (handleRedo n s)))) = redoStack s)\<close>
proof (intro conjI impI)
  assume ne: \<open>historyStack s \<noteq> []\<close>
  let ?s1 = \<open>snd (handleUndo n s)\<close>
  note u = handleUndo_effect[OF act cur ne, of n]
  have m1: \<open>map_of (flows ?s1) fid = Some (last (historyStack s))\<close>
    using u by (simp add: update_conv')
  have r1: \<open>redoStack ?s1 \<noteq> []\<close> using u by simp
  have a1: \<open>activeFlowId ?s1 = Some fid\<close> using u by simp
  note r = handleRedo_effect[OF a1 m1 r1, of m]
  show \<open>fst (handleUndo n s) = None\<close> using u by simp
  show \<open>fst (handleRedo m ?s1) = None\<close> using r by simp
  show \<open>activeFlow ?s1 = Some (last (historyStack s))\<close> using m1 a1 by (simp add: activeFlow_Some)
  show fl: \<open>flows (snd (handleRedo m ?s1)) = flows s\<close>
    using r u cur by (simp add: update_triv)
  show \<open>activeFlowId (snd (handleRedo m ?s1)) = activeFlowId s\<close> using r act by simp
  then show \<open>activeFlow (snd (handleRedo m ?s1)) = Some cur\<close>
    using fl cur act by (simp add: activeFlow_def)
  show \<open>historyStack (snd (handleRedo m ?s1)) = historyStack s\<close> using r u ne by simp
  show \<open>redoStack (snd (handleRedo m ?s1)) = redoStack s\<close> using r u by simp
next
  assume ne: \<open>redoStack s \<noteq> []\<close>
  let ?s1 = \<open>snd (handleRedo n s)\<close>
  note u = handleRedo_effect[OF act cur ne, of n]
  have m1: \<open>map_of (flows ?s1) fid = Some (last (redoStack s))\<close>
    using u by (simp add: update_conv')
  have r1: \<open>historyStack ?s1 \<noteq> []\<close> using u by simp
  have a1: \<open>activeFlowId ?s1 = Some fid\<close> using u by simp
  note r = handleUndo_effect[OF a1 m1 r1, of m]
  show \<open>fst (handleRedo n s) = None\<close> using u by simp
  show \<open>fst (handleUndo m ?s1) = None\<close> using r by simp
  show \<open>activeFlow ?s1 = Some (last (redoStack s))\<close> using m1 a1 by (simp add: activeFlow_Some)
  show fl: \<open>flows (snd (handleUndo m ?s1)) = flows s\<close>
    using r u cur by (simp add: update_triv)
  show \<open>activeFlowId (snd (handleUndo m ?s1)) = activeFlowId s\<close> using r act by simp
  then show \<open>activeFlow (snd (handleUndo m ?s1)) = Some cur\<close>
    using fl cur act by (simp add: activeFlow_def)
  show \<open>historyStack (snd (handleUndo m ?s1)) = historyStack s\<close> using r u by simp
  show \<open>redoStack (snd (handleUndo m ?s1)) = redoStack s\<close> using r u ne by simp
qed

theorem undo_redo_inverse_witness:
  \<open>activeFlowId exWorld = Some ''flow-1'' \<and> map_of (flows exWorld) ''flow-1'' = Some exFlowA
   \<and> historyStack exWorld \<noteq> [] \<and> redoStack exWorld \<noteq> []
   \<and> activeFlow (snd (handleUndo 1 exWorld)) = Some exFlowA0
   \<and> activeFlow (snd (handleRedo 1 (snd (handleUndo 1 exWorld)))) = Some exFlowA
   \<and> flows (snd (handleRedo 1 (snd (handleUndo 1 exWorld)))) = flows exWorld
   \<and> activeFlow (snd (handleRedo 1 exWorld)) = Some exFlowA2
   \<and> activeFlow (snd (handleUndo 1 (snd (handleRedo 1 exWorld)))) = Some exFlowA
   \<and> flows (snd (handleUndo 1 (snd (handleRedo 1 exWorld)))) = flows exWorld\<close>
proof -
  have a: \<open>activeFlowId exWorld = Some ''flow-1''\<close> by (simp add: exWorld_def)
  have c: \<open>map_of (flows exWorld) ''flow-1'' = Some exFlowA\<close> by (simp add: exWorld_def)
  have h: \<open>historyStack exWorld = [exFlowA0]\<close> by (simp add: exWorld_def)
  have r: \<open>redoStack exWorld = [exFlowA2]\<close> by (simp add: exWorld_def)
  show ?thesis using undo_redo_inverse[OF a c, of 1 1] a c h r by simp
qed

section \<open>Checkpoints\<close>

lemma checkpoints_active:
  assumes \<open>activeFlowId s = Some fid\<close> \<open>fid \<noteq> []\<close> \<open>map_of (flows s) fid = Some fl\<close>
  shows \<open>checkpoints (Suc n) s
         = (None, s\<lparr>historyStack := historyStack s @ replicate (Suc n) fl, redoStack := []\<rparr>)\<close>
  using assms
proof (induction n arbitrary: s)
  case 0
  then show ?case by (simp add: pushUndoState_active)
next
  case (Suc n)
  let ?s1 = \<open>s\<lparr>historyStack := historyStack s @ [fl], redoStack := []\<rparr>\<close>
  have \<open>checkpoints (Suc (Suc n)) s = checkpoints (Suc n) ?s1\<close>
    using Suc.prems by (simp add: pushUndoState_active)
  also have \<open>\<dots> = (None, ?s1\<lparr>historyStack := historyStack ?s1 @ replicate (Suc n) fl, redoStack := []\<rparr>)\<close>
    using Suc.prems by (intro Suc.IH) simp_all
  finally show ?case by (simp add: replicate_app_Cons_same)
qed

subsection \<open>Copies in the store\<close>

lemma those_map_mono:
  assumes \<open>those (map f xs) = Some ys\<close>
    and \<open>\<And>x y. x \<in> set xs \<Longrightarrow> f x = Some y \<Longrightarrow> g x = Some y\<close>
  shows \<open>those (map g xs) = Some ys\<close>
  using assms
proof (induction xs arbitrary: ys)
  case Nil
  then show ?case by simp
next
  case (Cons x xs)
  from Cons.prems(1) obtain y zs where y: \<open>f x = Some y\<close> \<open>those (map f xs) = Some zs\<close> \<open>ys = y # zs\<close>
    by (auto split: option.splits)
  have \<open>g x = Some y\<close> using Cons.prems(2) y(1) by simp
  moreover have \<open>those (map g xs) = Some zs\<close>
    using y(2) Cons.prems(2) by (intro Cons.IH) auto
  ultimately show ?case using y(3) by simp
qed

lemma stringify_fuel_mono:
  \<open>stringify n h v = Some j \<Longrightarrow> n \<le> m \<Longrightarrow> stringify m h v = Some j\<close>
proof (induction n arbitrary: m v j)
  case 0
  then show ?case by (cases v) simp_all
next
  case (Suc n)
  show ?case
  proof (cases v)
    case (VRef a)
    obtain m' where m: \<open>m = Suc m'\<close> \<open>n \<le> m'\<close> using Suc.prems(2) by (cases m) auto
    have lt: \<open>a < length h\<close> using Suc.prems(1) VRef by (simp split: if_splits)
    show ?thesis
    proof (cases \<open>h ! a\<close>)
      case (Arr vs)
      then obtain js where js: \<open>those (map (stringify n h) vs) = Some js\<close> \<open>j = JA js\<close>
        using Suc.prems(1) VRef lt by auto
      have \<open>those (map (stringify m' h) vs) = Some js\<close>
        using js(1) by (rule those_map_mono) (rule Suc.IH[OF _ m(2)])
      then show ?thesis using VRef m lt Arr js(2) by simp
    next
      case (Obj fs)
      then obtain js where js:
        \<open>those (map (\<lambda>kv. map_option (Pair (fst kv)) (stringify n h (snd kv))) fs) = Some js\<close> \<open>j = JO js\<close>
        using Suc.prems(1) VRef lt by auto
      have \<open>those (map (\<lambda>kv. map_option (Pair (fst kv)) (stringify m' h (snd kv))) fs) = Some js\<close>
        using js(1) by (rule those_map_mono) (auto dest: Suc.IH[OF _ m(2)])
      then show ?thesis using VRef m lt Obj js(2) by simp
    qed
  qed (use Suc.prems in simp_all)
qed

lemma stringify_heap_ext:
  \<open>stringify n h v = Some j \<Longrightarrow> stringify n (h @ ext) v = Some j\<close>
proof (induction n arbitrary: v j)
  case 0
  then show ?case by (cases v) simp_all
next
  case (Suc n)
  show ?case
  proof (cases v)
    case (VRef a)
    have lt: \<open>a < length h\<close> using Suc.prems(1) VRef by (simp split: if_splits)
    then have nth: \<open>(h @ ext) ! a = h ! a\<close> by (simp add: nth_append)
    show ?thesis
    proof (cases \<open>h ! a\<close>)
      case (Arr vs)
      then obtain js where js: \<open>those (map (stringify n h) vs) = Some js\<close> \<open>j = JA js\<close>
        using Suc.prems(1) VRef lt by auto
      have \<open>those (map (stringify n (h @ ext)) vs) = Some js\<close>
        using js(1) by (rule those_map_mono) (rule Suc.IH)
      then show ?thesis using VRef lt nth Arr js(2) by simp
    next
      case (Obj fs)
      then obtain js where js:
        \<open>those (map (\<lambda>kv. map_option (Pair (fst kv)) (stringify n h (snd kv))) fs) = Some js\<close> \<open>j = JO js\<close>
        using Suc.prems(1) VRef lt by auto
      have \<open>those (map (\<lambda>kv. map_option (Pair (fst kv)) (stringify n (h @ ext) (snd kv))) fs) = Some js\<close>
        using js(1) by (rule those_map_mono) (auto dest: Suc.IH)
      then show ?thesis using VRef lt nth Obj js(2) by simp
    qed
  qed (use Suc.prems in simp_all)
qed

lemma val_in_mono: \<open>val_in lo hi v \<Longrightarrow> lo' \<le> lo \<Longrightarrow> hi \<le> hi' \<Longrightarrow> val_in lo' hi' v\<close>
  by (cases v) auto

lemma vals_in_mono:
  \<open>list_all (val_in lo hi) vs \<Longrightarrow> lo' \<le> lo \<Longrightarrow> hi \<le> hi' \<Longrightarrow> list_all (val_in lo' hi') vs\<close>
  by (auto simp: list_all_iff intro: val_in_mono)

lemma obj_in_mono: \<open>obj_in lo hi ob \<Longrightarrow> lo' \<le> lo \<Longrightarrow> hi \<le> hi' \<Longrightarrow> obj_in lo' hi' ob\<close>
  unfolding obj_in_def by (rule vals_in_mono)

lemma objs_in_mono:
  \<open>list_all (obj_in lo hi) obs \<Longrightarrow> lo' \<le> lo \<Longrightarrow> hi \<le> hi' \<Longrightarrow> list_all (obj_in lo' hi') obs\<close>
  by (auto simp: list_all_iff intro: obj_in_mono)

lemma allocated_refl: \<open>allocated h h\<close>
  by (simp add: allocated_def)

lemma allocatedE:
  assumes \<open>allocated h h'\<close>
  obtains ext where \<open>h' = h @ ext\<close> \<open>list_all (obj_in (length h) (length h')) ext\<close>
proof
  show \<open>h' = h @ drop (length h) h'\<close>
    using assms append_take_drop_id[of \<open>length h\<close> h'] by (simp add: allocated_def)
  show \<open>list_all (obj_in (length h) (length h')) (drop (length h) h')\<close>
    using assms by (simp add: allocated_def)
qed

lemma allocated_trans:
  assumes \<open>allocated h h1\<close> \<open>allocated h1 h2\<close>
  shows \<open>allocated h h2\<close>
proof -
  obtain e1 where e1: \<open>h1 = h @ e1\<close> \<open>list_all (obj_in (length h) (length h1)) e1\<close>
    using assms(1) by (rule allocatedE)
  obtain e2 where e2: \<open>h2 = h1 @ e2\<close> \<open>list_all (obj_in (length h1) (length h2)) e2\<close>
    using assms(2) by (rule allocatedE)
  have \<open>list_all (obj_in (length h) (length h2)) e1\<close>
    using e1(2) by (rule objs_in_mono) (simp_all add: e2(1))
  moreover have \<open>list_all (obj_in (length h) (length h2)) e2\<close>
    using e2(2) by (rule objs_in_mono) (simp_all add: e1(1))
  ultimately show ?thesis by (simp add: allocated_def e1(1) e2(1))
qed

lemma allocated_snoc:
  assumes \<open>allocated h h1\<close> \<open>list_all (val_in (length h) (length h1)) (children ob)\<close>
  shows \<open>allocated h (h1 @ [ob])\<close>
proof -
  obtain e1 where e1: \<open>h1 = h @ e1\<close> \<open>list_all (obj_in (length h) (length h1)) e1\<close>
    using assms(1) by (rule allocatedE)
  have \<open>list_all (obj_in (length h) (Suc (length h1))) e1\<close>
    using e1(2) by (rule objs_in_mono) simp_all
  moreover have \<open>obj_in (length h) (Suc (length h1)) ob\<close>
    unfolding obj_in_def using assms(2) by (rule vals_in_mono) simp_all
  ultimately show ?thesis by (simp add: allocated_def e1(1))
qed

lemma allocatedD: \<open>allocated h h' \<Longrightarrow> length h \<le> length h'\<close>
  by (simp add: allocated_def)


lemma parse_allocates:
  \<open>JSON_parse j h = (v, h') \<Longrightarrow> allocated h h' \<and> val_in (length h) (length h') v\<close>
  \<open>parse_list xs h = (vs, h') \<Longrightarrow> allocated h h' \<and> list_all (val_in (length h) (length h')) vs\<close>
  \<open>parse_fields fs h = (kvs, h') \<Longrightarrow>
     allocated h h' \<and> list_all (val_in (length h) (length h')) (map snd kvs)\<close>
proof (induction j h and xs h and fs h arbitrary: v h' and vs h' and kvs h'
    rule: JSON_parse_parse_list_parse_fields.induct)
  case (1 t h)
  then show ?case by (auto simp: allocated_refl)
next
  case (2 k h)
  then show ?case by (auto simp: allocated_refl)
next
  case (3 xs h)
  obtain ws h1 where p: \<open>parse_list xs h = (ws, h1)\<close> by (cases \<open>parse_list xs h\<close>)
  have r: \<open>v = VRef (length h1)\<close> \<open>h' = h1 @ [Arr ws]\<close> using 3(2) p by simp_all
  have ih: \<open>allocated h h1\<close> \<open>list_all (val_in (length h) (length h1)) ws\<close>
    using 3(1)[OF p] by simp_all
  have \<open>allocated h (h1 @ [Arr ws])\<close> using ih by (intro allocated_snoc) simp_all
  moreover have \<open>length h \<le> length h1\<close> using ih(1) by (rule allocatedD)
  ultimately show ?case by (simp add: r)
next
  case (4 fs h)
  obtain ws h1 where p: \<open>parse_fields fs h = (ws, h1)\<close> by (cases \<open>parse_fields fs h\<close>)
  have r: \<open>v = VRef (length h1)\<close> \<open>h' = h1 @ [Obj ws]\<close> using 4(2) p by simp_all
  have ih: \<open>allocated h h1\<close> \<open>list_all (val_in (length h) (length h1)) (map snd ws)\<close>
    using 4(1)[OF p] by simp_all
  have \<open>allocated h (h1 @ [Obj ws])\<close> using ih by (intro allocated_snoc) simp_all
  moreover have \<open>length h \<le> length h1\<close> using ih(1) by (rule allocatedD)
  ultimately show ?case by (simp add: r)
next
  case (5 h)
  then show ?case by (auto simp: allocated_refl)
next
  case (6 x xs h)
  obtain v1 h1 where p1: \<open>JSON_parse x h = (v1, h1)\<close> by (cases \<open>JSON_parse x h\<close>)
  obtain vs2 h2 where p2: \<open>parse_list xs h1 = (vs2, h2)\<close> by (cases \<open>parse_list xs h1\<close>)
  have r: \<open>vs = v1 # vs2\<close> \<open>h' = h2\<close> using 6(3) p1 p2 by simp_all
  have a1: \<open>allocated h h1\<close> \<open>val_in (length h) (length h1) v1\<close> using 6(1)[OF p1] by simp_all
  have a2: \<open>allocated h1 h2\<close> \<open>list_all (val_in (length h1) (length h2)) vs2\<close>
    using 6(2)[OF p1[symmetric] p2] by simp_all
  have l: \<open>length h \<le> length h1\<close> \<open>length h1 \<le> length h2\<close>
    using a1(1) a2(1) by (simp_all add: allocatedD)
  have \<open>allocated h h2\<close> using a1(1) a2(1) by (rule allocated_trans)
  moreover have \<open>val_in (length h) (length h2) v1\<close>
    using a1(2) le_refl l(2) by (rule val_in_mono)
  moreover have \<open>list_all (val_in (length h) (length h2)) vs2\<close>
    using a2(2) l(1) le_refl by (rule vals_in_mono)
  ultimately show ?case by (simp add: r)
next
  case (7 h)
  then show ?case by (auto simp: allocated_refl)
next
  case (8 kx fs h)
  obtain v1 h1 where p1: \<open>JSON_parse (snd kx) h = (v1, h1)\<close> by (cases \<open>JSON_parse (snd kx) h\<close>)
  obtain vs2 h2 where p2: \<open>parse_fields fs h1 = (vs2, h2)\<close> by (cases \<open>parse_fields fs h1\<close>)
  have r: \<open>kvs = (fst kx, v1) # vs2\<close> \<open>h' = h2\<close> using 8(3) p1 p2 by simp_all
  have a1: \<open>allocated h h1\<close> \<open>val_in (length h) (length h1) v1\<close> using 8(1)[OF p1] by simp_all
  have a2: \<open>allocated h1 h2\<close> \<open>list_all (val_in (length h1) (length h2)) (map snd vs2)\<close>
    using 8(2)[OF p1[symmetric] p2] by simp_all
  have l: \<open>length h \<le> length h1\<close> \<open>length h1 \<le> length h2\<close>
    using a1(1) a2(1) by (simp_all add: allocatedD)
  have \<open>allocated h h2\<close> using a1(1) a2(1) by (rule allocated_trans)
  moreover have \<open>val_in (length h) (length h2) v1\<close>
    using a1(2) le_refl l(2) by (rule val_in_mono)
  moreover have \<open>list_all (val_in (length h) (length h2)) (map snd vs2)\<close>
    using a2(2) l(1) le_refl by (rule vals_in_mono)
  ultimately show ?case by (simp add: r)
qed

lemma those_Cons:
  \<open>f x = Some y \<Longrightarrow> those (map f xs) = Some ys \<Longrightarrow> those (map f (x # xs)) = Some (y # ys)\<close>
  by simp

lemma parse_roundtrip:
  \<open>JSON_parse j h = (v, h') \<Longrightarrow> stringify (Suc (length h' - length h)) h' v = Some j\<close>
  \<open>parse_list xs h = (vs, h') \<Longrightarrow>
     those (map (stringify (Suc (length h' - length h)) h') vs) = Some xs\<close>
  \<open>parse_fields fs h = (kvs, h') \<Longrightarrow>
     those (map (\<lambda>kv. map_option (Pair (fst kv)) (stringify (Suc (length h' - length h)) h' (snd kv))) kvs)
       = Some fs\<close>
proof (induction j h and xs h and fs h arbitrary: v h' and vs h' and kvs h'
    rule: JSON_parse_parse_list_parse_fields.induct)
  case (1 t h)
  then show ?case by auto
next
  case (2 k h)
  then show ?case by auto
next
  case (3 xs h)
  obtain ws h1 where p: \<open>parse_list xs h = (ws, h1)\<close> by (cases \<open>parse_list xs h\<close>)
  have r: \<open>v = VRef (length h1)\<close> \<open>h' = h1 @ [Arr ws]\<close> using 3(2) p by simp_all
  have l: \<open>length h \<le> length h1\<close> using parse_allocates(2)[OF p] by (simp add: allocatedD)
  have \<open>those (map (stringify (Suc (length h1 - length h)) h1) ws) = Some xs\<close>
    using 3(1)[OF p] .
  then have \<open>those (map (stringify (Suc (length h1 - length h)) (h1 @ [Arr ws])) ws) = Some xs\<close>
    by (rule those_map_mono) (rule stringify_heap_ext)
  moreover have \<open>Suc (length h1) - length h = Suc (length h1 - length h)\<close> using l by simp
  ultimately show ?case by (simp add: r)
next
  case (4 fs h)
  obtain ws h1 where p: \<open>parse_fields fs h = (ws, h1)\<close> by (cases \<open>parse_fields fs h\<close>)
  have r: \<open>v = VRef (length h1)\<close> \<open>h' = h1 @ [Obj ws]\<close> using 4(2) p by simp_all
  have l: \<open>length h \<le> length h1\<close> using parse_allocates(3)[OF p] by (simp add: allocatedD)
  have \<open>those (map (\<lambda>kv. map_option (Pair (fst kv))
           (stringify (Suc (length h1 - length h)) h1 (snd kv))) ws) = Some fs\<close>
    using 4(1)[OF p] .
  then have \<open>those (map (\<lambda>kv. map_option (Pair (fst kv))
           (stringify (Suc (length h1 - length h)) (h1 @ [Obj ws]) (snd kv))) ws) = Some fs\<close>
    by (rule those_map_mono) (auto dest: stringify_heap_ext)
  moreover have \<open>Suc (length h1) - length h = Suc (length h1 - length h)\<close> using l by simp
  ultimately show ?case by (simp add: r)
next
  case (5 h)
  then show ?case by auto
next
  case (6 x xs h)
  obtain v1 h1 where p1: \<open>JSON_parse x h = (v1, h1)\<close> by (cases \<open>JSON_parse x h\<close>)
  obtain vs2 h2 where p2: \<open>parse_list xs h1 = (vs2, h2)\<close> by (cases \<open>parse_list xs h1\<close>)
  have r: \<open>vs = v1 # vs2\<close> \<open>h' = h2\<close> using 6(3) p1 p2 by simp_all
  have l: \<open>length h \<le> length h1\<close> \<open>length h1 \<le> length h2\<close>
    using parse_allocates(1)[OF p1] parse_allocates(2)[OF p2] by (simp_all add: allocatedD)
  obtain ext where ext: \<open>h2 = h1 @ ext\<close>
    using parse_allocates(2)[OF p2] by (auto elim: allocatedE)
  let ?F = \<open>Suc (length h2 - length h)\<close>
  have \<open>stringify (Suc (length h1 - length h)) h1 v1 = Some x\<close> using 6(1)[OF p1] .
  then have \<open>stringify ?F h1 v1 = Some x\<close> by (rule stringify_fuel_mono) (use l in simp)
  then have a: \<open>stringify ?F h2 v1 = Some x\<close> unfolding ext by (rule stringify_heap_ext)
  have \<open>those (map (stringify (Suc (length h2 - length h1)) h2) vs2) = Some xs\<close>
    using 6(2)[OF p1[symmetric] p2] .
  then have b: \<open>those (map (stringify ?F h2) vs2) = Some xs\<close>
  proof (rule those_map_mono)
    fix w y assume \<open>stringify (Suc (length h2 - length h1)) h2 w = Some y\<close>
    then show \<open>stringify ?F h2 w = Some y\<close> by (rule stringify_fuel_mono) (use l in simp)
  qed
  show ?case unfolding r using a b by (rule those_Cons)
next
  case (7 h)
  then show ?case by auto
next
  case (8 kx fs h)
  obtain v1 h1 where p1: \<open>JSON_parse (snd kx) h = (v1, h1)\<close> by (cases \<open>JSON_parse (snd kx) h\<close>)
  obtain vs2 h2 where p2: \<open>parse_fields fs h1 = (vs2, h2)\<close> by (cases \<open>parse_fields fs h1\<close>)
  have r: \<open>kvs = (fst kx, v1) # vs2\<close> \<open>h' = h2\<close> using 8(3) p1 p2 by simp_all
  have l: \<open>length h \<le> length h1\<close> \<open>length h1 \<le> length h2\<close>
    using parse_allocates(1)[OF p1] parse_allocates(3)[OF p2] by (simp_all add: allocatedD)
  obtain ext where ext: \<open>h2 = h1 @ ext\<close>
    using parse_allocates(3)[OF p2] by (auto elim: allocatedE)
  let ?F = \<open>Suc (length h2 - length h)\<close>
  let ?f = \<open>\<lambda>n kv. map_option (Pair (fst kv)) (stringify n h2 (snd kv))\<close>
  have \<open>stringify (Suc (length h1 - length h)) h1 v1 = Some (snd kx)\<close> using 8(1)[OF p1] .
  then have \<open>stringify ?F h1 v1 = Some (snd kx)\<close> by (rule stringify_fuel_mono) (use l in simp)
  then have \<open>stringify ?F h2 v1 = Some (snd kx)\<close> unfolding ext by (rule stringify_heap_ext)
  then have a: \<open>?f ?F (fst kx, v1) = Some kx\<close> by simp
  have \<open>those (map (?f (Suc (length h2 - length h1))) vs2) = Some fs\<close>
    using 8(2)[OF p1[symmetric] p2] .
  then have b: \<open>those (map (?f ?F) vs2) = Some fs\<close>
  proof (rule those_map_mono)
    fix w :: \<open>string \<times> jsval\<close> and y :: \<open>string \<times> json\<close>
    assume \<open>?f (Suc (length h2 - length h1)) w = Some y\<close>
    then obtain z where z: \<open>stringify (Suc (length h2 - length h1)) h2 (snd w) = Some z\<close> \<open>y = (fst w, z)\<close>
      by auto
    have \<open>stringify ?F h2 (snd w) = Some z\<close> using z(1) by (rule stringify_fuel_mono) (use l in simp)
    then show \<open>?f ?F w = Some y\<close> using z(2) by simp
  qed
  show ?case unfolding r using a b by (rule those_Cons)
qed

lemma JSON_parse_stringify:
  assumes \<open>JSON_parse j h = (v, h')\<close>
  shows \<open>JSON_stringify (h' @ rest) v = Some j\<close>
proof -
  have \<open>stringify (Suc (length h' - length h)) h' v = Some j\<close>
    using assms by (rule parse_roundtrip(1))
  then have \<open>stringify (Suc (length h' - length h)) (h' @ rest) v = Some j\<close>
    by (rule stringify_heap_ext)
  then show ?thesis unfolding JSON_stringify_def by (rule stringify_fuel_mono) simp
qed

text \<open>What is read inside a closed region depends on the objects of the region only.\<close>

lemma stringify_agree:
  assumes closed: \<open>\<And>a. lo \<le> a \<Longrightarrow> a < hi \<Longrightarrow> obj_in lo hi (h ! a)\<close>
    and agree: \<open>\<And>a. lo \<le> a \<Longrightarrow> a < hi \<Longrightarrow> h2 ! a = h ! a\<close>
    and len: \<open>hi \<le> length h\<close> \<open>hi \<le> length h2\<close>
  shows \<open>val_in lo hi v \<Longrightarrow> stringify n h2 v = stringify n h v\<close>
proof (induction n arbitrary: v)
  case 0
  then show ?case by (cases v) simp_all
next
  case (Suc n)
  show ?case
  proof (cases v)
    case (VRef a)
    then have a: \<open>lo \<le> a\<close> \<open>a < hi\<close> using Suc.prems by simp_all
    then have lt: \<open>a < length h\<close> \<open>a < length h2\<close> using len by simp_all
    have same: \<open>h2 ! a = h ! a\<close> using a by (rule agree)
    have ch: \<open>list_all (val_in lo hi) (children (h ! a))\<close>
      using closed[OF a] by (simp add: obj_in_def)
    show ?thesis
    proof (cases \<open>h ! a\<close>)
      case (Arr vs)
      have \<open>map (stringify n h2) vs = map (stringify n h) vs\<close>
        using ch Arr by (intro map_cong refl Suc.IH) (simp add: list_all_iff)
      then show ?thesis using VRef lt same Arr by (simp del: map_eq_conv)
    next
      case (Obj fs)
      have \<open>map (\<lambda>kv. map_option (Pair (fst kv)) (stringify n h2 (snd kv))) fs
          = map (\<lambda>kv. map_option (Pair (fst kv)) (stringify n h (snd kv))) fs\<close>
      proof (rule map_cong[OF refl])
        fix kv assume \<open>kv \<in> set fs\<close>
        then have \<open>val_in lo hi (snd kv)\<close> using ch Obj by (simp add: list_all_iff)
        then show \<open>map_option (Pair (fst kv)) (stringify n h2 (snd kv))
            = map_option (Pair (fst kv)) (stringify n h (snd kv))\<close>
          by (simp add: Suc.IH)
      qed
      then show ?thesis using VRef lt same Obj by (simp del: map_eq_conv)
    qed
  qed simp_all
qed

lemma reach_region:
  assumes closed: \<open>\<And>a. lo \<le> a \<Longrightarrow> a < hi \<Longrightarrow> obj_in lo hi (h ! a)\<close>
    and v: \<open>val_in lo hi v\<close>
  shows \<open>reach h v \<subseteq> {lo..<hi}\<close>
proof
  fix a assume \<open>a \<in> reach h v\<close>
  then show \<open>a \<in> {lo..<hi}\<close>
  proof (induction rule: reach.induct)
    case (root a)
    then show ?case using v by simp
  next
    case (step a b)
    then have \<open>obj_in lo hi (h ! a)\<close> using closed by simp
    then have \<open>val_in lo hi (VRef b)\<close> using step(3) by (force simp: obj_in_def list_all_iff)
    then show ?case by simp
  qed
qed

lemma allocated_closed_new:
  assumes \<open>allocated h h'\<close> \<open>length h \<le> a\<close> \<open>a < length h'\<close>
  shows \<open>obj_in (length h) (length h') ((h' @ rest) ! a)\<close>
proof -
  obtain ext where e: \<open>h' = h @ ext\<close> \<open>list_all (obj_in (length h) (length h')) ext\<close>
    using assms(1) by (rule allocatedE)
  have i: \<open>\<not> a < length h\<close> \<open>a - length h < length ext\<close>
    using assms(2,3) by (auto simp: e(1))
  have \<open>(h' @ rest) ! a = (h @ (ext @ rest)) ! a\<close> by (simp add: e(1))
  also have \<open>\<dots> = (ext @ rest) ! (a - length h)\<close> using i(1) by (simp only: nth_append if_False)
  also have \<open>\<dots> = ext ! (a - length h)\<close> using i(2) by (simp only: nth_append if_True)
  finally show ?thesis using e(2) i(2) by (simp add: list_all_length)
qed

lemma allocated_closed_old:
  assumes \<open>allocated h h'\<close> \<open>wf_heap h\<close> \<open>a < length h\<close>
  shows \<open>obj_in 0 (length h) ((h' @ rest) ! a)\<close>
proof -
  obtain ext where e: \<open>h' = h @ ext\<close> using assms(1) by (rule allocatedE)
  have \<open>(h' @ rest) ! a = h ! a\<close> using assms(3) by (simp add: e nth_append)
  then show ?thesis using assms(2,3) by (simp add: wf_heap_def list_all_length)
qed

lemma stringify_Some_lt:
  \<open>JSON_stringify h (VRef a) = Some j \<Longrightarrow> a < length h\<close>
  by (simp add: JSON_stringify_def split: if_splits)

lemma checkpoint_store:
  assumes st: \<open>s_activeFlowId st = Some fid\<close> \<open>fid \<noteq> []\<close> \<open>map_of (s_flows st) fid = Some a\<close>
    and wf: \<open>wf_heap (objects st)\<close>
    and live: \<open>JSON_stringify (objects st) (VRef a) = Some j\<close>
  obtains c h' where
    \<open>pushUndoState_store st
       = (None, st\<lparr>objects := h', s_historyStack := s_historyStack st @ [c], s_redoStack := []\<rparr>)\<close>
    \<open>allocated (objects st) h'\<close>
    \<open>val_in (length (objects st)) (length h') c\<close>
    \<open>JSON_parse j (objects st) = (c, h')\<close>
proof -
  obtain c h' where p: \<open>JSON_parse j (objects st) = (c, h')\<close> by (cases \<open>JSON_parse j (objects st)\<close>)
  have \<open>pushUndoState_store st
       = (None, st\<lparr>objects := h', s_historyStack := s_historyStack st @ [c], s_redoStack := []\<rparr>)\<close>
    using st live p by (simp add: pushUndoState_store_def)
  then show thesis using parse_allocates(1)[OF p] p that by blast
qed

lemma copy_independent:
  assumes al: \<open>allocated h h'\<close> and c: \<open>val_in (length h) (length h') c\<close>
    and p: \<open>JSON_parse j h = (c, h')\<close>
    and len: \<open>length h' \<le> length h2\<close>
    and agree: \<open>\<And>x. length h \<le> x \<Longrightarrow> x < length h' \<Longrightarrow> h2 ! x = h' ! x\<close>
  shows \<open>JSON_stringify h2 c = Some j\<close>
proof -
  have closed: \<open>obj_in (length h) (length h') (h' ! a)\<close>
    if \<open>length h \<le> a\<close> \<open>a < length h'\<close> for a
    using allocated_closed_new[OF al that, of \<open>[]\<close>] by simp
  have \<open>stringify (Suc (length h' - length h)) h2 c = stringify (Suc (length h' - length h)) h' c\<close>
    using closed agree le_refl len c by (rule stringify_agree)
  then have \<open>stringify (Suc (length h' - length h)) h2 c = Some j\<close>
    using parse_roundtrip(1)[OF p] by simp
  then show ?thesis unfolding JSON_stringify_def
    by (rule stringify_fuel_mono) (use len in simp)
qed

lemma copy_disjoint:
  assumes al: \<open>allocated h h'\<close> and c: \<open>val_in (length h) (length h') c\<close>
    and wf: \<open>wf_heap h\<close> and a: \<open>a < length h\<close>
  shows \<open>reach h' c \<subseteq> {length h..<length h'}\<close> and \<open>reach h' (VRef a) \<subseteq> {0..<length h}\<close>
proof -
  show \<open>reach h' c \<subseteq> {length h..<length h'}\<close>
  proof (rule reach_region[OF _ c])
    fix x assume \<open>length h \<le> x\<close> \<open>x < length h'\<close>
    then show \<open>obj_in (length h) (length h') (h' ! x)\<close>
      using allocated_closed_new[OF al, of x \<open>[]\<close>] by simp
  qed
  show \<open>reach h' (VRef a) \<subseteq> {0..<length h}\<close>
  proof (rule reach_region)
    fix x assume \<open>x < length h\<close>
    then show \<open>obj_in 0 (length h) (h' ! x)\<close>
      using allocated_closed_old[OF al wf, of x \<open>[]\<close>] by simp
  next
    show \<open>val_in 0 (length h) (VRef a)\<close> using a by simp
  qed
qed

lemma exObjects_facts:
  \<open>wf_heap exObjects\<close> \<open>JSON_stringify exObjects (VRef 7) = Some (flow_json exFlowA)\<close>
  \<open>length exObjects = 16\<close>
proof -
  obtain c1 h1 where p1: \<open>JSON_parse (flow_json exFlowA) [] = (c1, h1)\<close>
    by (cases \<open>JSON_parse (flow_json exFlowA) []\<close>)
  obtain c2 h2 where p2: \<open>JSON_parse (flow_json exFlowA2) h1 = (c2, h2)\<close>
    by (cases \<open>JSON_parse (flow_json exFlowA2) h1\<close>)
  have e: \<open>exObjects = h2\<close> by (simp add: exObjects_def p1 p2)
  have c1: \<open>c1 = VRef 7\<close> \<open>length h1 = 8\<close>
    using p1 by (auto simp: flow_json_def exFlowA_def exFlowA0_def exArtifact_def message_json_def
        artifact_json_def opt_field_def)
  have c2: \<open>length h2 = 16\<close>
    using p2 c1(2) by (auto simp: flow_json_def exFlowA2_def exFlowA0_def exArtifact_def message_json_def
        artifact_json_def opt_field_def)
  have \<open>allocated [] h2\<close>
    using parse_allocates(1)[OF p1] parse_allocates(1)[OF p2] by (intro allocated_trans[of \<open>[]\<close> h1 h2]) simp_all
  then show \<open>wf_heap exObjects\<close> by (simp add: e allocated_def wf_heap_def)
  obtain ext where \<open>h2 = h1 @ ext\<close> using parse_allocates(1)[OF p2] by (auto elim: allocatedE)
  then show \<open>JSON_stringify exObjects (VRef 7) = Some (flow_json exFlowA)\<close>
    using JSON_parse_stringify[OF p1, of ext] c1 by (simp add: e)
  show \<open>length exObjects = 16\<close> by (simp add: e c2)
qed

text \<open>
  Claim C7. In a state with an active flow \<open>fl\<close>, \<open>pushUndoState\<close> does not throw,
  empties the redo stack whatever it held, and pushes \<open>fl\<close> onto the undo stack, changing
  nothing else; \<open>n\<close> checkpoints with no undo in between add \<open>n\<close> entries, so from an empty
  undo stack the stack has exactly \<open>n\<close>. Over the store of objects, where the live flow is
  the object at address \<open>a\<close> and reads as \<open>fl\<close>: the checkpoint does not throw, empties
  the redo stack, puts one entry on top of the undo stack and leaves the objects that
  were there as they were; the entry reads as \<open>fl\<close>, as the live flow still does; no
  object that the entry leads to is one the live flow leads to, nor any object that was
  there before the checkpoint; and in every later store that still has the objects made
  by the checkpoint as they are, whatever has been written into the objects that were
  there before and whatever objects have been created, the entry still reads as \<open>fl\<close>.
\<close>

theorem checkpoint_pushes_copy:
  assumes act: \<open>activeFlowId s = Some fid\<close> \<open>fid \<noteq> []\<close> \<open>map_of (flows s) fid = Some fl\<close>
    and st: \<open>s_activeFlowId st = Some fid\<close> \<open>map_of (s_flows st) fid = Some a\<close>
    and wf: \<open>wf_heap (objects st)\<close>
    and live: \<open>JSON_stringify (objects st) (VRef a) = Some (flow_json fl)\<close>
  shows \<open>pushUndoState s = (None, s\<lparr>historyStack := historyStack s @ [fl], redoStack := []\<rparr>)
       \<and> fst (checkpoints n s) = None
       \<and> historyStack (snd (checkpoints n s)) = historyStack s @ replicate n fl
       \<and> length (historyStack (snd (checkpoints n (s\<lparr>historyStack := []\<rparr>)))) = n
       \<and> fst (pushUndoState_store st) = None
       \<and> s_redoStack (snd (pushUndoState_store st)) = []
       \<and> s_historyStack (snd (pushUndoState_store st))
           = s_historyStack st @ [last (s_historyStack (snd (pushUndoState_store st)))]
       \<and> s_flows (snd (pushUndoState_store st)) = s_flows st
       \<and> s_activeFlowId (snd (pushUndoState_store st)) = s_activeFlowId st
       \<and> take (length (objects st)) (objects (snd (pushUndoState_store st))) = objects st
       \<and> JSON_stringify (objects (snd (pushUndoState_store st)))
             (last (s_historyStack (snd (pushUndoState_store st)))) = Some (flow_json fl)
       \<and> JSON_stringify (objects (snd (pushUndoState_store st))) (VRef a) = Some (flow_json fl)
       \<and> reach (objects (snd (pushUndoState_store st)))
             (last (s_historyStack (snd (pushUndoState_store st))))
           \<inter> reach (objects (snd (pushUndoState_store st))) (VRef a) = {}
       \<and> reach (objects (snd (pushUndoState_store st)))
             (last (s_historyStack (snd (pushUndoState_store st))))
           \<inter> {..<length (objects st)} = {}
       \<and> (\<forall>h2. length (objects (snd (pushUndoState_store st))) \<le> length h2
               \<and> (\<forall>x. length (objects st) \<le> x
                      \<and> x < length (objects (snd (pushUndoState_store st)))
                      \<longrightarrow> h2 ! x = objects (snd (pushUndoState_store st)) ! x)
             \<longrightarrow> JSON_stringify h2 (last (s_historyStack (snd (pushUndoState_store st))))
                   = Some (flow_json fl))\<close>
proof -
  let ?h = \<open>objects st\<close>
  obtain c h' where run: \<open>pushUndoState_store st
       = (None, st\<lparr>objects := h', s_historyStack := s_historyStack st @ [c], s_redoStack := []\<rparr>)\<close>
    and al: \<open>allocated ?h h'\<close> and c: \<open>val_in (length ?h) (length h') c\<close>
    and p: \<open>JSON_parse (flow_json fl) ?h = (c, h')\<close>
    using checkpoint_store[OF st(1) act(2) st(2) wf live] by blast
  have a: \<open>a < length ?h\<close> using live by (rule stringify_Some_lt)
  obtain ext where ext: \<open>h' = ?h @ ext\<close> using al by (rule allocatedE)
  have liv: \<open>JSON_stringify h' (VRef a) = Some (flow_json fl)\<close>
  proof -
    have \<open>stringify (Suc (length ?h)) (?h @ ext) (VRef a) = Some (flow_json fl)\<close>
      using live unfolding JSON_stringify_def by (rule stringify_heap_ext)
    then show ?thesis unfolding JSON_stringify_def ext by (rule stringify_fuel_mono) simp
  qed
  note d = copy_disjoint[OF al c wf a]
  have v: \<open>pushUndoState s = (None, s\<lparr>historyStack := historyStack s @ [fl], redoStack := []\<rparr>)\<close>
    using act by (rule pushUndoState_active)
  have n1: \<open>fst (checkpoints n s) = None\<close>
    using act by (cases n) (simp_all add: checkpoints_active del: checkpoints.simps(2))
  have n2: \<open>historyStack (snd (checkpoints n s)) = historyStack s @ replicate n fl\<close>
    using act by (cases n) (simp_all add: checkpoints_active del: checkpoints.simps(2))
  have n3: \<open>length (historyStack (snd (checkpoints n (s\<lparr>historyStack := []\<rparr>)))) = n\<close>
    using act by (cases n) (simp_all add: checkpoints_active del: checkpoints.simps(2))
  have s1: \<open>take (length ?h) h' = ?h\<close> by (simp add: ext)
  have s2: \<open>JSON_stringify h' c = Some (flow_json fl)\<close>
    using JSON_parse_stringify[OF p, of \<open>[]\<close>] by simp
  have s3: \<open>reach h' c \<inter> reach h' (VRef a) = {}\<close> using d by fastforce
  have s4: \<open>reach h' c \<inter> {..<length ?h} = {}\<close> using d(1) by fastforce
  have s5: \<open>\<forall>h2. length h' \<le> length h2
        \<and> (\<forall>x. length ?h \<le> x \<and> x < length h' \<longrightarrow> h2 ! x = h' ! x)
        \<longrightarrow> JSON_stringify h2 c = Some (flow_json fl)\<close>
    using copy_independent[OF al c p] by blast
  show ?thesis
    using v n1 n2 n3 s1 s2 liv s3 s4 s5 by (simp add: run)
qed

theorem checkpoint_pushes_copy_witness:
  \<open>activeFlowId exWorld = Some ''flow-1'' \<and> ''flow-1'' \<noteq> []
   \<and> map_of (flows exWorld) ''flow-1'' = Some exFlowA
   \<and> redoStack exWorld \<noteq> []
   \<and> s_activeFlowId exStore = Some ''flow-1'' \<and> map_of (s_flows exStore) ''flow-1'' = Some 7
   \<and> wf_heap (objects exStore)
   \<and> JSON_stringify (objects exStore) (VRef 7) = Some (flow_json exFlowA)
   \<and> s_redoStack exStore \<noteq> []
   \<and> pushUndoState exWorld = (None, exWorld\<lparr>historyStack := [exFlowA0, exFlowA], redoStack := []\<rparr>)
   \<and> length (historyStack (snd (checkpoints 3 (exWorld\<lparr>historyStack := []\<rparr>)))) = 3
   \<and> fst (pushUndoState_store exStore) = None
   \<and> s_redoStack (snd (pushUndoState_store exStore)) = []
   \<and> s_historyStack (snd (pushUndoState_store exStore))
       = [last (s_historyStack (snd (pushUndoState_store exStore)))]
   \<and> reach (objects (snd (pushUndoState_store exStore)))
         (last (s_historyStack (snd (pushUndoState_store exStore))))
       \<inter> reach (objects (snd (pushUndoState_store exStore))) (VRef 7) = {}
   \<and> (7::nat) < length (objects exStore)
   \<and> JSON_stringify ((objects (snd (pushUndoState_store exStore)))[7 := Obj []])
         (last (s_historyStack (snd (pushUndoState_store exStore)))) = Some (flow_json exFlowA)\<close>
proof -
  have a: \<open>activeFlowId exWorld = Some ''flow-1''\<close> by (simp add: exWorld_def)
  have b: \<open>''flow-1'' \<noteq> []\<close> by simp
  have c: \<open>map_of (flows exWorld) ''flow-1'' = Some exFlowA\<close> by (simp add: exWorld_def)
  have h: \<open>historyStack exWorld = [exFlowA0]\<close> by (simp add: exWorld_def)
  have r: \<open>redoStack exWorld = [exFlowA2]\<close> by (simp add: exWorld_def)
  have d: \<open>s_activeFlowId exStore = Some ''flow-1''\<close> \<open>map_of (s_flows exStore) ''flow-1'' = Some 7\<close>
    \<open>s_historyStack exStore = []\<close> \<open>s_redoStack exStore = [VRef 15]\<close> \<open>objects exStore = exObjects\<close>
    by (simp_all add: exStore_def)
  have w: \<open>wf_heap (objects exStore)\<close> by (simp add: d exObjects_facts)
  have l: \<open>JSON_stringify (objects exStore) (VRef 7) = Some (flow_json exFlowA)\<close>
    by (simp add: d exObjects_facts)
  have n: \<open>(7::nat) < length (objects exStore)\<close> by (simp add: d exObjects_facts)
  note t = checkpoint_pushes_copy[OF a b c d(1,2) w l, of 3]
  have \<open>length (objects (snd (pushUndoState_store exStore)))
        \<le> length ((objects (snd (pushUndoState_store exStore)))[7 := Obj []])
      \<and> (\<forall>x. length (objects exStore) \<le> x \<and> x < length (objects (snd (pushUndoState_store exStore)))
            \<longrightarrow> (objects (snd (pushUndoState_store exStore)))[7 := Obj []] ! x
                = objects (snd (pushUndoState_store exStore)) ! x)\<close>
    using n by simp
  then have u: \<open>JSON_stringify ((objects (snd (pushUndoState_store exStore)))[7 := Obj []])
         (last (s_historyStack (snd (pushUndoState_store exStore)))) = Some (flow_json exFlowA)\<close>
    using t by blast
  show ?thesis using t u a c h r d(1-4) w l n by simp
qed

lemma pushUndoState_frame:
  \<open>flows (snd (pushUndoState s)) = flows s \<and> activeFlowId (snd (pushUndoState s)) = activeFlowId s
   \<and> alerts (snd (pushUndoState s)) = alerts s\<close>
  by (simp add: pushUndoState_def deepClone_def split: option.splits)

lemma pushUndoState_ok:
  \<open>activeFlow s \<noteq> None \<Longrightarrow> fst (pushUndoState s) = None\<close>
  by (auto simp: pushUndoState_def deepClone_def split: option.splits)

lemma and_then_ok:
  \<open>fst r = None \<Longrightarrow> and_then r f = f (snd r)\<close>
  by (cases r) simp

lemma firstKey_delete:
  \<open>firstKey (AList.delete k fs) = (case removeAll k (map fst fs) of [] \<Rightarrow> None | x # xs \<Rightarrow> Some x)\<close>
  by (simp add: firstKey_def delete_keys)

lemma remaining_keys:
  assumes \<open>distinct ks\<close> \<open>2 \<le> length ks\<close>
  shows \<open>removeAll k ks \<noteq> []\<close>
proof (cases ks)
  case Nil
  then show ?thesis using assms by simp
next
  case (Cons x xs)
  then obtain y ys where xs: \<open>xs = y # ys\<close> using assms by (cases xs) auto
  have \<open>x \<noteq> y\<close> using assms Cons xs by simp
  then show ?thesis using Cons xs by auto
qed

lemma appendMessage_active:
  assumes \<open>activeFlowId s = Some fid\<close> \<open>fid \<noteq> []\<close> \<open>map_of (flows s) fid = Some fl\<close>
  shows \<open>appendMessage r t x s =
    (None, s\<lparr>flows := AList.update fid (fl\<lparr>history := history fl @ [\<lparr>role = r, parts = [t]\<rparr>]\<rparr>) (flows s),
             fluid_flows := Some (Parsed (AList.update fid (fl\<lparr>history := history fl @ [\<lparr>role = r, parts = [t]\<rparr>]\<rparr>) (flows s))),
             fluid_active_flow_id := Some fid,
             chatHistoryEl := chatHistoryEl s @ [\<lparr>el_message = \<lparr>role = r, parts = [t]\<rparr>, el_extra = x\<rparr>]\<rparr>)\<close>
  using assms by (simp add: appendMessage_def activeFlow_Some saveFlows_def Let_def)

section \<open>Tool calls\<close>

text \<open>
  Claim C9. In a state with an active flow \<open>fl\<close>, a tool call whose name is none of
  \<^verbatim>\<open>present_artifact\<close>, \<^verbatim>\<open>modify_artifact\<close>, \<^verbatim>\<open>create_task_list\<close> does not throw and
  leaves the state as it was but for one checkpoint (the flow pushed once onto the undo
  stack, the redo stack emptied): the flows, and so the history, artifacts, snapshots
  and name of the active flow, and the message elements on screen are unchanged.
\<close>

theorem unknown_tool_noop:
  assumes \<open>activeFlowId s = Some fid\<close> \<open>fid \<noteq> []\<close> \<open>map_of (flows s) fid = Some fl\<close>
    and \<open>name fc \<notin> {''present_artifact'', ''modify_artifact'', ''create_task_list''}\<close>
  shows \<open>handleFunctionCall n clock fc s
         = (None, s\<lparr>historyStack := historyStack s @ [fl], redoStack := []\<rparr>)\<close>
  using assms by (simp add: handleFunctionCall_def Let_def pushUndoState_active)

theorem unknown_tool_noop_witness:
  \<open>activeFlowId exWorld = Some ''flow-1'' \<and> ''flow-1'' \<noteq> []
   \<and> map_of (flows exWorld) ''flow-1'' = Some exFlowA
   \<and> name exUnknown \<notin> {''present_artifact'', ''modify_artifact'', ''create_task_list''}
   \<and> handleFunctionCall 1 (\<lambda>k. 5) exUnknown exWorld
       = (None, exWorld\<lparr>historyStack := [exFlowA0, exFlowA], redoStack := []\<rparr>)\<close>
proof -
  have a: \<open>activeFlowId exWorld = Some ''flow-1''\<close> by (simp add: exWorld_def)
  have b: \<open>''flow-1'' \<noteq> []\<close> by simp
  have c: \<open>map_of (flows exWorld) ''flow-1'' = Some exFlowA\<close> by (simp add: exWorld_def)
  have d: \<open>name exUnknown \<notin> {''present_artifact'', ''modify_artifact'', ''create_task_list''}\<close>
    by (simp add: exUnknown_def)
  have h: \<open>historyStack exWorld = [exFlowA0]\<close> by (simp add: exWorld_def)
  show ?thesis using unknown_tool_noop[OF a b c d, of 1 \<open>\<lambda>k. 5\<close>] a c d h by simp
qed

text \<open>
  Claim C4. In a state with an active flow \<open>fl\<close>, a \<^verbatim>\<open>modify_artifact\<close> call whose
  \<^verbatim>\<open>artifactId\<close> is the id of no artifact of \<open>fl\<close> does not throw; afterwards the active
  flow is \<open>fl\<close> with one message appended to its history, authored by the model and
  naming the id that was asked for: the artifacts are the same sequence and the earlier
  messages are untouched. The other flows are unchanged, and the notice is the one
  element added to the screen.
\<close>

theorem modify_missing_artifact:
  assumes act: \<open>activeFlowId s = Some fid\<close> \<open>fid \<noteq> []\<close> \<open>map_of (flows s) fid = Some fl\<close>
    and nm: \<open>name fc = ''modify_artifact''\<close>
    and missing: \<open>arg_artifactId (args fc) \<notin> set (map (\<lambda>a. Some (a_id a)) (artifacts fl))\<close>
  shows \<open>fst (handleFunctionCall n clock fc s) = None
    \<and> flows (snd (handleFunctionCall n clock fc s))
        = AList.update fid
            (fl\<lparr>history := history fl @
               [\<lparr>role = Model,
                 parts = [''Apologies, I could not find an artifact with the ID ''
                            @ js_str (arg_artifactId (args fc)) @ ''.'']\<rparr>]\<rparr>)
            (flows s)
    \<and> map_option artifacts (activeFlow (snd (handleFunctionCall n clock fc s))) = Some (artifacts fl)
    \<and> map_option history (activeFlow (snd (handleFunctionCall n clock fc s)))
        = Some (history fl @
               [\<lparr>role = Model,
                 parts = [''Apologies, I could not find an artifact with the ID ''
                            @ js_str (arg_artifactId (args fc)) @ ''.'']\<rparr>])
    \<and> chatHistoryEl (snd (handleFunctionCall n clock fc s))
        = chatHistoryEl s @
            [\<lparr>el_message = \<lparr>role = Model,
                 parts = [''Apologies, I could not find an artifact with the ID ''
                            @ js_str (arg_artifactId (args fc)) @ ''.'']\<rparr>,
              el_extra = []\<rparr>]\<close>
proof -
  have f: \<open>find (\<lambda>a. Some (a_id a) = arg_artifactId (args fc)) (artifacts fl) = None\<close>
    using missing by (force simp: find_None_iff)
  let ?s1 = \<open>s\<lparr>historyStack := historyStack s @ [fl], redoStack := []\<rparr>\<close>
  have s1: \<open>activeFlowId ?s1 = Some fid\<close> \<open>map_of (flows ?s1) fid = Some fl\<close> using act by simp_all
  show ?thesis
    using act nm f
    by (simp add: handleFunctionCall_def Let_def pushUndoState_active activeFlow_Some
        appendMessage_active[OF s1(1) act(2) s1(2)] update_conv')
qed

theorem modify_missing_artifact_witness:
  \<open>activeFlowId exWorld = Some ''flow-1'' \<and> ''flow-1'' \<noteq> []
   \<and> map_of (flows exWorld) ''flow-1'' = Some exFlowA
   \<and> name exModifyMissing = ''modify_artifact''
   \<and> arg_artifactId (args exModifyMissing) \<notin> set (map (\<lambda>a. Some (a_id a)) (artifacts exFlowA))
   \<and> fst (handleFunctionCall 1 (\<lambda>k. 5) exModifyMissing exWorld) = None
   \<and> map_option artifacts (activeFlow (snd (handleFunctionCall 1 (\<lambda>k. 5) exModifyMissing exWorld)))
       = Some [exArtifact]
   \<and> map_option history (activeFlow (snd (handleFunctionCall 1 (\<lambda>k. 5) exModifyMissing exWorld)))
       = Some [\<lparr>role = User, parts = [''design X'']\<rparr>,
               \<lparr>role = Model,
                parts = [''Apologies, I could not find an artifact with the ID artifact-9.'']\<rparr>]\<close>
proof -
  have a: \<open>activeFlowId exWorld = Some ''flow-1''\<close> by (simp add: exWorld_def)
  have b: \<open>''flow-1'' \<noteq> []\<close> by simp
  have c: \<open>map_of (flows exWorld) ''flow-1'' = Some exFlowA\<close> by (simp add: exWorld_def)
  have d: \<open>name exModifyMissing = ''modify_artifact''\<close> by (simp add: exModifyMissing_def)
  have e: \<open>arg_artifactId (args exModifyMissing) \<notin> set (map (\<lambda>a. Some (a_id a)) (artifacts exFlowA))\<close>
    by (simp add: exFlowA_def exArtifact_def exModifyMissing_def noArgs_def)
  have g: \<open>artifacts exFlowA = [exArtifact]\<close> \<open>history exFlowA = [\<lparr>role = User, parts = [''design X'']\<rparr>]\<close>
    by (simp_all add: exFlowA_def exFlowA0_def)
  have i: \<open>js_str (arg_artifactId (args exModifyMissing)) = ''artifact-9''\<close>
    by (simp add: exModifyMissing_def noArgs_def js_str_def)
  show ?thesis
    using modify_missing_artifact[OF a b c d e, of 1 \<open>\<lambda>k. 5\<close>] a c d e g i by simp
qed

lemma update_first_decomp:
  \<open>find p xs = Some a \<Longrightarrow>
   \<exists>ys zs. xs = ys @ a # zs \<and> (\<forall>y\<in>set ys. \<not> p y) \<and> update_first p g xs = ys @ g a # zs\<close>
proof (induction xs)
  case Nil then show ?case by simp
next
  case (Cons x xs)
  show ?case
  proof (cases \<open>p x\<close>)
    case True
    then have \<open>x = a\<close> using Cons.prems by simp
    then show ?thesis using True by (intro exI[of _ \<open>[]\<close>] exI[of _ xs]) simp
  next
    case False
    then obtain ys zs where \<open>xs = ys @ a # zs\<close> \<open>\<forall>y\<in>set ys. \<not> p y\<close> \<open>update_first p g xs = ys @ g a # zs\<close>
      using Cons by auto
    then show ?thesis using False by (intro exI[of _ \<open>x # ys\<close>] exI[of _ zs]) simp
  qed
qed

lemma modify_found_run:
  assumes act: \<open>activeFlowId s = Some fid\<close> \<open>fid \<noteq> []\<close> \<open>map_of (flows s) fid = Some fl\<close>
    and nm: \<open>name fc = ''modify_artifact''\<close>
    and found: \<open>find (\<lambda>a. Some (a_id a) = arg_artifactId (args fc)) (artifacts fl) = Some a\<close>
  defines \<open>s2 \<equiv> saveFlows (s\<lparr>historyStack := historyStack s @ [fl], redoStack := [],
                 flows := AList.update fid
                   (fl\<lparr>artifacts := update_first (\<lambda>a. Some (a_id a) = arg_artifactId (args fc))
                          (\<lambda>a. a\<lparr>a_content := arg_newContent (args fc)\<rparr>) (artifacts fl)\<rparr>)
                   (flows s)\<rparr>)\<close>
  shows \<open>handleFunctionCall n clock fc s =
     and_then
       (if activeArtifactId s = arg_artifactId (args fc)
        then (renderArtifactContent (a\<lparr>a_content := arg_newContent (args fc)\<rparr>), s2)
        else (None, s2))
       (appendMessage Model (''I have updated the artifact: *'' @ js_str (a_title a) @ ''*.'') [])\<close>
  using act nm found
  by (simp add: handleFunctionCall_def Let_def pushUndoState_active activeFlow_Some s2_def
      saveFlows_def)

lemma renderArtifactContent_ok:
  \<open>a_type a = Some ''code'' \<or> a_type a = Some ''mermaid'' \<or> c \<noteq> None
   \<Longrightarrow> renderArtifactContent (a\<lparr>a_content := c\<rparr>) = None\<close>
  by (auto simp: renderArtifactContent_def split: option.splits)

text \<open>
  Claim C10, as the code has it. In a state with an active flow \<open>fl\<close>, take a
  \<^verbatim>\<open>modify_artifact\<close> call whose \<^verbatim>\<open>artifactId\<close> is found in \<open>fl\<close>, first at the artifact
  \<open>a\<close>, and whose re-render does not fail: \<open>a\<close> is not the active artifact, or its type is
  \<^verbatim>\<open>code\<close> or \<^verbatim>\<open>mermaid\<close>, or \<^verbatim>\<open>newContent\<close> is present. The call does not throw; afterwards
  the active flow is \<open>fl\<close> with the content of \<open>a\<close> replaced where \<open>a\<close> stands (the
  artifacts before and after it as they were) and with one message appended to the
  history, authored by the model and naming the title of \<open>a\<close>. The other flows are
  unchanged, the flows are persisted as they now are, and the confirmation is the one
  element added to the screen.
\<close>

theorem modify_existing_artifact:
  assumes act: \<open>activeFlowId s = Some fid\<close> \<open>fid \<noteq> []\<close> \<open>map_of (flows s) fid = Some fl\<close>
    and nm: \<open>name fc = ''modify_artifact''\<close>
    and found: \<open>find (\<lambda>a. Some (a_id a) = arg_artifactId (args fc)) (artifacts fl) = Some a\<close>
    and renders: \<open>activeArtifactId s \<noteq> arg_artifactId (args fc)
        \<or> a_type a = Some ''code'' \<or> a_type a = Some ''mermaid''
        \<or> arg_newContent (args fc) \<noteq> None\<close>
  shows \<open>fst (handleFunctionCall n clock fc s) = None
    \<and> (\<exists>before after.
          artifacts fl = before @ a # after
        \<and> (\<forall>b \<in> set before. Some (a_id b) \<noteq> arg_artifactId (args fc))
        \<and> activeFlow (snd (handleFunctionCall n clock fc s))
            = Some (fl\<lparr>artifacts := before @ a\<lparr>a_content := arg_newContent (args fc)\<rparr> # after,
                       history := history fl @
                         [\<lparr>role = Model,
                           parts = [''I have updated the artifact: *'' @ js_str (a_title a) @ ''*.'']\<rparr>]\<rparr>))
    \<and> AList.delete fid (flows (snd (handleFunctionCall n clock fc s))) = AList.delete fid (flows s)
    \<and> fluid_flows (snd (handleFunctionCall n clock fc s))
        = Some (Parsed (flows (snd (handleFunctionCall n clock fc s))))
    \<and> chatHistoryEl (snd (handleFunctionCall n clock fc s))
        = chatHistoryEl s @
            [\<lparr>el_message = \<lparr>role = Model,
                 parts = [''I have updated the artifact: *'' @ js_str (a_title a) @ ''*.'']\<rparr>,
              el_extra = []\<rparr>]\<close>
proof -
  let ?p = \<open>\<lambda>a. Some (a_id a) = arg_artifactId (args fc)\<close>
  let ?g = \<open>\<lambda>a. a\<lparr>a_content := arg_newContent (args fc)\<rparr>\<close>
  let ?fl1 = \<open>fl\<lparr>artifacts := update_first ?p ?g (artifacts fl)\<rparr>\<close>
  let ?s2 = \<open>saveFlows (s\<lparr>historyStack := historyStack s @ [fl], redoStack := [],
                 flows := AList.update fid ?fl1 (flows s)\<rparr>)\<close>
  obtain before after where d: \<open>artifacts fl = before @ a # after\<close>
      \<open>\<forall>y\<in>set before. \<not> ?p y\<close> \<open>update_first ?p ?g (artifacts fl) = before @ ?g a # after\<close>
    using update_first_decomp[OF found, of ?g] by blast
  have s2: \<open>activeFlowId ?s2 = Some fid\<close> \<open>map_of (flows ?s2) fid = Some ?fl1\<close>
    using act by (simp_all add: saveFlows_def update_conv')
  have ok: \<open>activeArtifactId s = arg_artifactId (args fc)
      \<Longrightarrow> renderArtifactContent (?g a) = None\<close>
    using renders renderArtifactContent_ok[of a \<open>arg_newContent (args fc)\<close>] by blast
  have run: \<open>handleFunctionCall n clock fc s
      = appendMessage Model (''I have updated the artifact: *'' @ js_str (a_title a) @ ''*.'') [] ?s2\<close>
    using ok by (simp add: modify_found_run[OF act nm found])
  note r = run[unfolded appendMessage_active[OF s2(1) act(2) s2(2)]]
  show ?thesis
  proof (intro conjI)
    show \<open>fst (handleFunctionCall n clock fc s) = None\<close> by (simp add: r)
    show \<open>\<exists>before after. artifacts fl = before @ a # after
        \<and> (\<forall>b \<in> set before. Some (a_id b) \<noteq> arg_artifactId (args fc))
        \<and> activeFlow (snd (handleFunctionCall n clock fc s))
            = Some (fl\<lparr>artifacts := before @ a\<lparr>a_content := arg_newContent (args fc)\<rparr> # after,
                       history := history fl @
                         [\<lparr>role = Model,
                           parts = [''I have updated the artifact: *'' @ js_str (a_title a) @ ''*.'']\<rparr>]\<rparr>)\<close>
      using d act
      by (intro exI[of _ before] exI[of _ after])
         (simp add: r activeFlow_def saveFlows_def update_conv')
    show \<open>AList.delete fid (flows (snd (handleFunctionCall n clock fc s))) = AList.delete fid (flows s)\<close>
      by (simp add: r saveFlows_def delete_update_same)
    show \<open>fluid_flows (snd (handleFunctionCall n clock fc s))
        = Some (Parsed (flows (snd (handleFunctionCall n clock fc s))))\<close>
      by (simp add: r saveFlows_def)
    show \<open>chatHistoryEl (snd (handleFunctionCall n clock fc s))
        = chatHistoryEl s @
            [\<lparr>el_message = \<lparr>role = Model,
                 parts = [''I have updated the artifact: *'' @ js_str (a_title a) @ ''*.'']\<rparr>,
              el_extra = []\<rparr>]\<close>
      by (simp add: r saveFlows_def)
  qed
qed

theorem modify_existing_artifact_witness:
  \<open>activeFlowId exWorld = Some ''flow-1'' \<and> ''flow-1'' \<noteq> []
   \<and> map_of (flows exWorld) ''flow-1'' = Some exFlowA
   \<and> name exModify = ''modify_artifact''
   \<and> find (\<lambda>a. Some (a_id a) = arg_artifactId (args exModify)) (artifacts exFlowA) = Some exArtifact
   \<and> activeArtifactId exWorld = arg_artifactId (args exModify)
   \<and> arg_newContent (args exModify) = Some ''v2''
   \<and> fst (handleFunctionCall 1 (\<lambda>k. 5) exModify exWorld) = None
   \<and> chatHistoryEl (snd (handleFunctionCall 1 (\<lambda>k. 5) exModify exWorld))
       = [\<lparr>el_message = \<lparr>role = User, parts = [''design X'']\<rparr>, el_extra = []\<rparr>,
          \<lparr>el_message = \<lparr>role = Model, parts = [''I have updated the artifact: *Plan*.'']\<rparr>,
           el_extra = []\<rparr>]\<close>
proof -
  have a: \<open>activeFlowId exWorld = Some ''flow-1''\<close> by (simp add: exWorld_def)
  have b: \<open>''flow-1'' \<noteq> []\<close> by simp
  have c: \<open>map_of (flows exWorld) ''flow-1'' = Some exFlowA\<close> by (simp add: exWorld_def)
  have d: \<open>name exModify = ''modify_artifact''\<close> by (simp add: exModify_def)
  have e: \<open>find (\<lambda>a. Some (a_id a) = arg_artifactId (args exModify)) (artifacts exFlowA) = Some exArtifact\<close>
    by (simp add: exFlowA_def exArtifact_def exModify_def noArgs_def)
  have f: \<open>arg_newContent (args exModify) = Some ''v2''\<close> by (simp add: exModify_def noArgs_def)
  have f': \<open>activeArtifactId exWorld = arg_artifactId (args exModify)\<close>
    by (simp add: exWorld_def exModify_def noArgs_def)
  have r: \<open>activeArtifactId exWorld \<noteq> arg_artifactId (args exModify)
        \<or> a_type exArtifact = Some ''code'' \<or> a_type exArtifact = Some ''mermaid''
        \<or> arg_newContent (args exModify) \<noteq> None\<close>
    using f by simp
  have g: \<open>chatHistoryEl exWorld = [\<lparr>el_message = \<lparr>role = User, parts = [''design X'']\<rparr>, el_extra = []\<rparr>]\<close>
    by (simp add: exWorld_def exFlowA_def exFlowA0_def)
  have i: \<open>js_str (a_title exArtifact) = ''Plan''\<close> by (simp add: exArtifact_def js_str_def)
  show ?thesis
    using modify_existing_artifact[OF a b c d e r, of 1 \<open>\<lambda>k. 5\<close>] a c d e f f' g i by simp
qed

text \<open>
  Claim C10 as stated fails: in the store with two flows the artifact "Plan", of type
  \<^verbatim>\<open>plan\<close>, is the active one; a \<^verbatim>\<open>modify_artifact\<close> call that names it and carries no
  \<^verbatim>\<open>newContent\<close> finds it, fails in the re-render, and leaves the history and the screen
  without any confirmation.
\<close>

theorem modify_without_content_counterexample:
  \<open>find (\<lambda>a. Some (a_id a) = arg_artifactId (args exModifyNoContent)) (artifacts exFlowA) = Some exArtifact
   \<and> fst (handleFunctionCall 1 (\<lambda>k. 5) exModifyNoContent exWorld) = Some MarkedError
   \<and> map_option history (activeFlow (snd (handleFunctionCall 1 (\<lambda>k. 5) exModifyNoContent exWorld)))
       = Some (history exFlowA)
   \<and> chatHistoryEl (snd (handleFunctionCall 1 (\<lambda>k. 5) exModifyNoContent exWorld))
       = chatHistoryEl exWorld\<close>
proof -
  have a: \<open>activeFlowId exWorld = Some ''flow-1''\<close> by (simp add: exWorld_def)
  have b: \<open>''flow-1'' \<noteq> []\<close> by simp
  have c: \<open>map_of (flows exWorld) ''flow-1'' = Some exFlowA\<close> by (simp add: exWorld_def)
  have d: \<open>name exModifyNoContent = ''modify_artifact''\<close> by (simp add: exModifyNoContent_def)
  have e: \<open>find (\<lambda>a. Some (a_id a) = arg_artifactId (args exModifyNoContent)) (artifacts exFlowA)
      = Some exArtifact\<close>
    by (simp add: exFlowA_def exArtifact_def exModifyNoContent_def noArgs_def)
  have f: \<open>activeArtifactId exWorld = arg_artifactId (args exModifyNoContent)\<close>
    by (simp add: exWorld_def exModifyNoContent_def noArgs_def)
  have g: \<open>renderArtifactContent (exArtifact\<lparr>a_content := arg_newContent (args exModifyNoContent)\<rparr>)
      = Some MarkedError\<close>
    by (simp add: renderArtifactContent_def exArtifact_def exModifyNoContent_def noArgs_def)
  show ?thesis
    using e a c
    by (simp add: modify_found_run[OF a b c d e] f g activeFlow_def saveFlows_def update_conv')
qed

section \<open>Resolution of the active artifact\<close>

lemma find_id_None: \<open>(find (\<lambda>a. Some (a_id a) = cur) arts = None) = (cur \<notin> set (map (\<lambda>a. Some (a_id a)) arts))\<close>
  by (auto simp: find_None_iff)

lemma find_id_Some: \<open>find (\<lambda>a. Some (a_id a) = cur) arts = Some a \<Longrightarrow> cur = Some (a_id a) \<and> a \<in> set arts\<close>
  by (auto simp: find_Some_iff)

lemma resolve_eq_spec: \<open>resolveActiveArtifact arts cur = spec_resolve arts cur\<close>
proof (cases \<open>find (\<lambda>a. Some (a_id a) = cur) arts\<close>)
  case None
  then show ?thesis
    using find_id_None[of cur arts] by (simp add: resolveActiveArtifact_def spec_resolve_def)
next
  case (Some a)
  then have \<open>cur = Some (a_id a)\<close> \<open>a \<in> set arts\<close> using find_id_Some by blast+
  then show ?thesis using Some
    by (auto simp: resolveActiveArtifact_def spec_resolve_def)
qed

lemma spec_resolve_idem: \<open>spec_resolve arts (spec_resolve arts cur) = spec_resolve arts cur\<close>
  by (auto simp: spec_resolve_def)

lemma viewer_keeps_last:
  assumes \<open>activeFlow s = Some fl\<close> \<open>artifacts fl \<noteq> []\<close>
    \<open>activeArtifactId s = Some (a_id (last (artifacts fl)))\<close>
  shows \<open>activeArtifactId (snd (renderArtifactViewer n s)) = Some (a_id (last (artifacts fl)))\<close>
  using assms
proof (induction n arbitrary: s)
  case 0 then show ?case by simp
next
  case (Suc n)
  let ?s' = \<open>s\<lparr>activeArtifactId := Some (a_id (last (artifacts fl)))\<rparr>\<close>
  have \<open>activeFlow ?s' = Some fl\<close> using Suc.prems by (simp add: activeFlow_def)
  then have \<open>activeArtifactId (snd (renderArtifactViewer n ?s')) = Some (a_id (last (artifacts fl)))\<close>
    using Suc.prems by (intro Suc.IH) simp_all
  then show ?case using Suc.prems by simp
qed

lemma viewer_resolves:
  assumes \<open>activeFlow s = Some fl\<close> \<open>artifacts fl \<noteq> []\<close>
  shows \<open>activeArtifactId (snd (renderArtifactViewer (Suc n) s))
         = spec_resolve (artifacts fl) (activeArtifactId s)\<close>
proof (cases \<open>\<not> truthy (activeArtifactId s)
          \<or> find (\<lambda>a. Some (a_id a) = activeArtifactId s) (artifacts fl) = None\<close>)
  case True
  let ?s' = \<open>s\<lparr>activeArtifactId := Some (a_id (last (artifacts fl)))\<rparr>\<close>
  have \<open>activeFlow ?s' = Some fl\<close> using assms by (simp add: activeFlow_def)
  then have \<open>activeArtifactId (snd (renderArtifactViewer n ?s')) = Some (a_id (last (artifacts fl)))\<close>
    using assms by (intro viewer_keeps_last) simp_all
  moreover have \<open>spec_resolve (artifacts fl) (activeArtifactId s) = Some (a_id (last (artifacts fl)))\<close>
    using True assms find_id_None[of \<open>activeArtifactId s\<close> \<open>artifacts fl\<close>]
    by (auto simp: spec_resolve_def)
  ultimately show ?thesis using True assms by simp
next
  case False
  then have \<open>spec_resolve (artifacts fl) (activeArtifactId s) = activeArtifactId s\<close>
    using find_id_None[of \<open>activeArtifactId s\<close> \<open>artifacts fl\<close>] by (auto simp: spec_resolve_def)
  then show ?thesis using False assms by auto
qed
lemma viewer_pointer_resolved:
  assumes \<open>activeFlow s = Some fl\<close> \<open>activeArtifactId s = spec_resolve (artifacts fl) cur\<close>
  shows \<open>activeArtifactId (snd (renderArtifactViewer n s)) = spec_resolve (artifacts fl) cur\<close>
proof (cases n)
  case 0 then show ?thesis using assms by simp
next
  case (Suc k)
  show ?thesis
  proof (cases \<open>artifacts fl = []\<close>)
    case True then show ?thesis using assms Suc by simp
  next
    case False
    then show ?thesis using assms Suc viewer_resolves[OF assms(1) False, of k]
      by (simp add: spec_resolve_idem)
  qed
qed

text \<open>
  Claim C8. In a state whose active flow is \<open>fl\<close>, \<^verbatim>\<open>initializeChat\<close> (soft or hard)
  leaves in \<^verbatim>\<open>activeArtifactId\<close> the value of the resolution rule: the old pointer if it
  is set and names an artifact of \<open>fl\<close>, else the id of the last artifact of \<open>fl\<close>, else
  null when \<open>fl\<close> has no artifact. \<^verbatim>\<open>renderArtifactViewer\<close>, which runs when the registry
  has just grown, applies the same rule whenever \<open>fl\<close> has an artifact. Unset is what
  the code tests: null or the empty string.
\<close>

theorem active_artifact_resolution:
  assumes fl: \<open>activeFlow s = Some fl\<close>
  shows \<open>activeArtifactId (snd (initializeChat n softRefresh s))
           = spec_resolve (artifacts fl) (activeArtifactId s)
       \<and> (artifacts fl \<noteq> [] \<longrightarrow>
            activeArtifactId (snd (renderArtifactViewer (Suc n) s))
              = spec_resolve (artifacts fl) (activeArtifactId s))\<close>
proof (intro conjI impI)
  show \<open>artifacts fl \<noteq> [] \<Longrightarrow> activeArtifactId (snd (renderArtifactViewer (Suc n) s))
              = spec_resolve (artifacts fl) (activeArtifactId s)\<close>
    using fl by (rule viewer_resolves)
  define s2 where \<open>s2 = (if \<not> softRefresh
        then (setLoading True s)\<lparr>chatHistoryEl := [], historyStack := [], redoStack := []\<rparr>
        else (setLoading True s)\<lparr>chatHistoryEl := []\<rparr>)\<close>
  define s5 where \<open>s5 = s2\<lparr>chatHistoryEl :=
                        (if history fl = []
                         then [\<lparr>el_message = \<lparr>role = Model, parts = [welcomeMessageText]\<rparr>, el_extra = []\<rparr>]
                         else map (\<lambda>m. \<lparr>el_message = m, el_extra = []\<rparr>) (history fl)),
                  aiChat := Some (map (\<lambda>m. \<lparr>role = role m, parts = parts m\<rparr>) (history fl)),
                  activeArtifactId := spec_resolve (artifacts fl) (activeArtifactId s)\<rparr>\<close>
  have a2: \<open>activeFlow s2 = Some fl\<close> \<open>activeArtifactId s2 = activeArtifactId s\<close>
    using fl by (simp_all add: s2_def activeFlow_def setLoading_def)
  have run: \<open>initializeChat n softRefresh s
      = and_then (renderArtifactViewer n s5) (\<lambda>s6. (None, setLoading False s6))\<close>
    using a2 unfolding initializeChat_def Let_def s5_def s2_def
    by (simp add: resolve_eq_spec)
  have a5: \<open>activeFlow s5 = Some fl\<close> \<open>activeArtifactId s5 = spec_resolve (artifacts fl) (activeArtifactId s)\<close>
    using a2 by (simp_all add: s5_def activeFlow_def)
  show \<open>activeArtifactId (snd (initializeChat n softRefresh s))
           = spec_resolve (artifacts fl) (activeArtifactId s)\<close>
    using viewer_pointer_resolved[OF a5, of n] a5
    by (simp add: run snd_and_then_ret setLoading_def)
qed

theorem active_artifact_resolution_witness:
  \<open>activeFlow exWorld = Some exFlowA \<and> artifacts exFlowA \<noteq> []
   \<and> activeArtifactId (snd (initializeChat 1 True exWorld)) = Some ''artifact-1''
   \<and> activeArtifactId (snd (renderArtifactViewer (Suc 0) exWorld)) = Some ''artifact-1''
   \<and> activeFlow (exWorld\<lparr>activeArtifactId := Some ''artifact-7''\<rparr>) = Some exFlowA
   \<and> activeArtifactId (snd (initializeChat 1 False (exWorld\<lparr>activeArtifactId := Some ''artifact-7''\<rparr>)))
       = Some ''artifact-1''\<close>
proof -
  have a: \<open>activeFlow exWorld = Some exFlowA\<close> by (simp add: exWorld_def activeFlow_def)
  have a': \<open>activeFlow (exWorld\<lparr>activeArtifactId := Some ''artifact-7''\<rparr>) = Some exFlowA\<close>
    by (simp add: exWorld_def activeFlow_def)
  have b: \<open>artifacts exFlowA \<noteq> []\<close> by (simp add: exFlowA_def)
  have c: \<open>spec_resolve (artifacts exFlowA) (activeArtifactId exWorld) = Some ''artifact-1''\<close>
    by (simp add: spec_resolve_def exFlowA_def exArtifact_def exWorld_def)
  have c': \<open>spec_resolve (artifacts exFlowA) (Some ''artifact-7'') = Some ''artifact-1''\<close>
    by (simp add: spec_resolve_def exFlowA_def exArtifact_def)
  show ?thesis
    using active_artifact_resolution[OF a, of 1 True] active_artifact_resolution[OF a, of 0 True]
      active_artifact_resolution[OF a', of 1 False] a a' b c c'
    by simp
qed

section \<open>Deleting and switching flows\<close>

lemma deleteFlow_confirmed:
  assumes \<open>2 \<le> length (flows s)\<close> \<open>map_of (flows s) fid = Some fl\<close> \<open>fst (pushUndoState s) = None\<close>
  shows \<open>fst (deleteFlow n fid True s) = None
    \<and> flows (snd (deleteFlow n fid True s)) = AList.delete fid (flows s)
    \<and> activeFlowId (snd (deleteFlow n fid True s))
        = (if activeFlowId s = Some fid then firstKey (AList.delete fid (flows s)) else activeFlowId s)\<close>
proof -
  define s1 where \<open>s1 = snd (pushUndoState s)\<close>
  have s1: \<open>flows s1 = flows s\<close> \<open>activeFlowId s1 = activeFlowId s\<close>
    by (simp_all add: s1_def pushUndoState_frame)
  define s3 where \<open>s3 = (if activeFlowId s = Some fid
       then s1\<lparr>flows := AList.delete fid (flows s), activeFlowId := firstKey (AList.delete fid (flows s))\<rparr>
       else s1\<lparr>flows := AList.delete fid (flows s)\<rparr>)\<close>
  have run: \<open>deleteFlow n fid True s = (None, snd (initializeChat n False (saveFlows s3)))\<close>
    using assms s1 unfolding deleteFlow_def s3_def
    by (simp add: and_then_ok Let_def s1_def[symmetric])
  show ?thesis
    by (simp add: run initializeChat_hard_frame saveFlows_def s3_def s1)
qed

lemma deleteFlow_declined:
  assumes \<open>2 \<le> length (flows s)\<close> \<open>map_of (flows s) fid = Some fl\<close>
  shows \<open>deleteFlow n fid False s = (None, s)\<close>
  using assms by (simp add: deleteFlow_def)

text \<open>
  Claim C5. \<^verbatim>\<open>deleteFlow\<close> on a store of at most one flow shows the alert "Cannot delete
  the last flow." and changes nothing else, whatever the answer to the confirmation
  would be. On a store of at least two flows: deleting a flow that is not the active one
  does not throw and leaves \<^verbatim>\<open>activeFlowId\<close> as it was (the flow is removed if the user
  confirms); deleting the active flow, once confirmed, removes it and makes the first
  of the remaining keys, in insertion order, the active flow.
\<close>

theorem deleteFlow_cases:
  \<open>(length (flows s) \<le> 1 \<longrightarrow>
      deleteFlow n fid confirmed s = (None, s\<lparr>alerts := alerts s @ [''Cannot delete the last flow.'']\<rparr>))
   \<and> (2 \<le> length (flows s) \<and> map_of (flows s) fid \<noteq> None \<and> activeFlowId s \<noteq> Some fid
        \<and> activeFlow s \<noteq> None \<longrightarrow>
        fst (deleteFlow n fid confirmed s) = None
      \<and> activeFlowId (snd (deleteFlow n fid confirmed s)) = activeFlowId s
      \<and> flows (snd (deleteFlow n fid confirmed s))
          = (if confirmed then AList.delete fid (flows s) else flows s))
   \<and> (2 \<le> length (flows s) \<and> distinct (map fst (flows s)) \<and> map_of (flows s) fid \<noteq> None
        \<and> activeFlowId s = Some fid \<longrightarrow>
        fst (deleteFlow n fid True s) = None
      \<and> flows (snd (deleteFlow n fid True s)) = AList.delete fid (flows s)
      \<and> activeFlowId (snd (deleteFlow n fid True s)) = Some (hd (removeAll fid (map fst (flows s))))
      \<and> hd (removeAll fid (map fst (flows s))) \<in> set (map fst (flows s)) - {fid})\<close>
proof (intro conjI impI)
  assume \<open>length (flows s) \<le> 1\<close>
  then show \<open>deleteFlow n fid confirmed s = (None, s\<lparr>alerts := alerts s @ [''Cannot delete the last flow.'']\<rparr>)\<close>
    by (simp add: deleteFlow_def)
next
  assume h: \<open>2 \<le> length (flows s) \<and> map_of (flows s) fid \<noteq> None \<and> activeFlowId s \<noteq> Some fid
        \<and> activeFlow s \<noteq> None\<close>
  then obtain fl where fl: \<open>map_of (flows s) fid = Some fl\<close> by auto
  have p: \<open>fst (pushUndoState s) = None\<close> using h by (intro pushUndoState_ok) simp
  note c = deleteFlow_confirmed[OF _ fl p, of n] deleteFlow_declined[OF _ fl, of n]
  show \<open>fst (deleteFlow n fid confirmed s) = None\<close>
    using h c by (cases confirmed) simp_all
  show \<open>activeFlowId (snd (deleteFlow n fid confirmed s)) = activeFlowId s\<close>
    using h c by (cases confirmed) simp_all
  show \<open>flows (snd (deleteFlow n fid confirmed s))
          = (if confirmed then AList.delete fid (flows s) else flows s)\<close>
    using h c by (cases confirmed) simp_all
next
  assume h: \<open>2 \<le> length (flows s) \<and> distinct (map fst (flows s)) \<and> map_of (flows s) fid \<noteq> None
        \<and> activeFlowId s = Some fid\<close>
  then obtain fl where fl: \<open>map_of (flows s) fid = Some fl\<close> by auto
  have \<open>activeFlow s \<noteq> None\<close> using h fl by (simp add: activeFlow_Some)
  then have p: \<open>fst (pushUndoState s) = None\<close> by (rule pushUndoState_ok)
  have ne: \<open>removeAll fid (map fst (flows s)) \<noteq> []\<close>
    using h by (intro remaining_keys) simp_all
  then obtain k ks where ks: \<open>removeAll fid (map fst (flows s)) = k # ks\<close>
    by (cases \<open>removeAll fid (map fst (flows s))\<close>) auto
  note c = deleteFlow_confirmed[OF _ fl p, of n]
  show \<open>fst (deleteFlow n fid True s) = None\<close> using h c by simp
  show \<open>flows (snd (deleteFlow n fid True s)) = AList.delete fid (flows s)\<close> using h c by simp
  show \<open>activeFlowId (snd (deleteFlow n fid True s)) = Some (hd (removeAll fid (map fst (flows s))))\<close>
    using h c ks by (simp add: firstKey_delete)
  have \<open>k \<in> set (removeAll fid (map fst (flows s)))\<close> using ks by simp
  then have \<open>k \<in> set (map fst (flows s)) - {fid}\<close> by (simp only: set_removeAll)
  then show \<open>hd (removeAll fid (map fst (flows s))) \<in> set (map fst (flows s)) - {fid}\<close>
    using ks by simp
qed

theorem deleteFlow_cases_witness:
  \<open>length (flows exWorldSingle) \<le> 1
   \<and> deleteFlow 1 ''flow-1'' True exWorldSingle
       = (None, exWorldSingle\<lparr>alerts := alerts exWorldSingle @ [''Cannot delete the last flow.'']\<rparr>)
   \<and> (2 \<le> length (flows exWorld) \<and> map_of (flows exWorld) ''flow-2'' \<noteq> None
        \<and> activeFlowId exWorld \<noteq> Some ''flow-2'' \<and> activeFlow exWorld \<noteq> None)
   \<and> activeFlowId (snd (deleteFlow 1 ''flow-2'' True exWorld)) = Some ''flow-1''
   \<and> flows (snd (deleteFlow 1 ''flow-2'' True exWorld)) = [(''flow-1'', exFlowA)]
   \<and> (2 \<le> length (flows exWorld) \<and> distinct (map fst (flows exWorld))
        \<and> map_of (flows exWorld) ''flow-1'' \<noteq> None \<and> activeFlowId exWorld = Some ''flow-1'')
   \<and> activeFlowId (snd (deleteFlow 1 ''flow-1'' True exWorld)) = Some ''flow-2''
   \<and> flows (snd (deleteFlow 1 ''flow-1'' True exWorld)) = [(''flow-2'', exFlowB)]\<close>
proof -
  have a: \<open>length (flows exWorldSingle) \<le> 1\<close> by (simp add: exWorldSingle_def)
  have f: \<open>flows exWorld = [(''flow-1'', exFlowA), (''flow-2'', exFlowB)]\<close>
    \<open>activeFlowId exWorld = Some ''flow-1''\<close>
    by (simp_all add: exWorld_def)
  have b: \<open>2 \<le> length (flows exWorld) \<and> map_of (flows exWorld) ''flow-2'' \<noteq> None
        \<and> activeFlowId exWorld \<noteq> Some ''flow-2'' \<and> activeFlow exWorld \<noteq> None\<close>
    by (simp add: f activeFlow_def)
  have c: \<open>2 \<le> length (flows exWorld) \<and> distinct (map fst (flows exWorld))
        \<and> map_of (flows exWorld) ''flow-1'' \<noteq> None \<and> activeFlowId exWorld = Some ''flow-1''\<close>
    by (simp add: f)
  show ?thesis
    using deleteFlow_cases[where s = exWorldSingle and n = 1 and fid = \<open>''flow-1''\<close> and confirmed = True]
      deleteFlow_cases[where s = exWorld and n = 1 and fid = \<open>''flow-2''\<close> and confirmed = True]
      deleteFlow_cases[where s = exWorld and n = 1 and fid = \<open>''flow-1''\<close> and confirmed = True] a b c
    by (simp add: f)
qed

text \<open>
  Claim C2, as the code has it. Switching to a flow other than the active one empties
  the undo stack and the redo stack (\<^verbatim>\<open>switchFlow\<close> re-initialises the conversation hard),
  makes that flow the active one and leaves the flows as they are; switching to the flow
  that is already active does nothing at all.
\<close>

theorem switchFlow_resets_stacks:
  \<open>(Some fid \<noteq> activeFlowId s \<longrightarrow>
       historyStack (snd (switchFlow n fid s)) = []
     \<and> redoStack (snd (switchFlow n fid s)) = []
     \<and> activeFlowId (snd (switchFlow n fid s)) = Some fid
     \<and> flows (snd (switchFlow n fid s)) = flows s)
   \<and> (Some fid = activeFlowId s \<longrightarrow> switchFlow n fid s = (None, s))\<close>
  by (simp add: switchFlow_def initializeChat_hard_frame saveFlows_def)

theorem switchFlow_resets_stacks_witness:
  \<open>Some ''flow-2'' \<noteq> activeFlowId exWorld
   \<and> historyStack exWorld \<noteq> [] \<and> redoStack exWorld \<noteq> []
   \<and> historyStack (snd (switchFlow 1 ''flow-2'' exWorld)) = []
   \<and> redoStack (snd (switchFlow 1 ''flow-2'' exWorld)) = []
   \<and> Some ''flow-1'' = activeFlowId exWorld
   \<and> switchFlow 1 ''flow-1'' exWorld = (None, exWorld)\<close>
proof -
  have a: \<open>activeFlowId exWorld = Some ''flow-1''\<close> \<open>historyStack exWorld = [exFlowA0]\<close>
    \<open>redoStack exWorld = [exFlowA2]\<close>
    by (simp_all add: exWorld_def)
  show ?thesis
    using switchFlow_resets_stacks[where s = exWorld and n = 1 and fid = \<open>''flow-2''\<close>]
      switchFlow_resets_stacks[where s = exWorld and n = 1 and fid = \<open>''flow-1''\<close>] a
    by simp
qed

text \<open>
  Claim C2 as stated fails: in the store with two flows, whose undo and redo stacks hold
  one entry each, switching from the first flow to the second does not leave the stacks
  unchanged.
\<close>

theorem switchFlow_keeps_stacks_counterexample:
  \<open>\<not> (historyStack (snd (switchFlow 1 ''flow-2'' exWorld)) = historyStack exWorld
      \<and> redoStack (snd (switchFlow 1 ''flow-2'' exWorld)) = redoStack exWorld)\<close>
  by (simp add: switchFlow_def initializeChat_hard_frame exWorld_def)


section \<open>Submitting a message\<close>

lemma extendsD:
  assumes \<open>extends fid K H s\<close>
  obtains fl where \<open>activeFlowId s = Some fid\<close> \<open>prefix K (historyStack s)\<close> \<open>redoStack s = []\<close>
    \<open>map_of (flows s) fid = Some fl\<close> \<open>prefix H (history fl)\<close> \<open>fluid_flows s = Some (Parsed (flows s))\<close>
  using assms by (auto simp: extends_def split: option.splits)

lemma extends_frame:
  assumes \<open>extends fid K H s\<close> \<open>activeFlowId s' = activeFlowId s\<close> \<open>historyStack s' = historyStack s\<close>
    \<open>redoStack s' = redoStack s\<close> \<open>flows s' = flows s\<close> \<open>fluid_flows s' = fluid_flows s\<close>
  shows \<open>extends fid K H s'\<close>
  using assms by (simp add: extends_def)

lemma extends_push:
  assumes \<open>extends fid K H s\<close>
  shows \<open>extends fid K H (s\<lparr>historyStack := historyStack s @ [x], redoStack := []\<rparr>)\<close>
  using assms by (simp add: extends_def)

lemma extends_append:
  assumes \<open>extends fid K H s\<close> \<open>fid \<noteq> []\<close>
  shows \<open>fst (appendMessage r t x s) = None \<and> extends fid K H (snd (appendMessage r t x s))\<close>
proof -
  from assms(1) obtain fl where f: \<open>activeFlowId s = Some fid\<close> \<open>map_of (flows s) fid = Some fl\<close>
    by (rule extendsD)
  show ?thesis
    using assms(1) f
    by (simp add: appendMessage_active[OF f(1) assms(2) f(2)] extends_def update_conv')
qed

lemma extends_viewer:
  assumes \<open>extends fid K H s\<close>
  shows \<open>extends fid K H (snd (renderArtifactViewer n s))\<close>
  using assms by (rule extends_frame) (simp_all add: renderArtifactViewer_frame)

lemma snd_and_then_cases:
  \<open>snd (and_then r f) = (if fst r = None then snd (f (snd r)) else snd r)\<close>
  by (cases r; cases \<open>fst r\<close>) auto

lemma extends_handleFunctionCall:
  assumes e: \<open>extends fid K H s\<close> and ne: \<open>fid \<noteq> []\<close>
  shows \<open>extends fid K H (snd (handleFunctionCall n clock fc s))\<close>
proof -
  from e obtain fl where f: \<open>activeFlowId s = Some fid\<close> \<open>map_of (flows s) fid = Some fl\<close>
      \<open>prefix H (history fl)\<close>
    by (rule extendsD)
  define s1 where \<open>s1 = s\<lparr>historyStack := historyStack s @ [fl], redoStack := []\<rparr>\<close>
  have e1: \<open>extends fid K H s1\<close> unfolding s1_def using e by (rule extends_push)
  have p: \<open>pushUndoState s = (None, s1)\<close>
    unfolding s1_def using f(1) ne f(2) by (rule pushUndoState_active)
  have f1: \<open>activeFlowId s1 = Some fid\<close> \<open>flows s1 = flows s\<close> using f by (simp_all add: s1_def)
  note ap = extends_append[OF e1 ne]
  consider (present) \<open>name fc = ''present_artifact''\<close>
    | (tasks) \<open>name fc = ''create_task_list''\<close>
    | (modify) \<open>name fc = ''modify_artifact''\<close>
    | (other) \<open>name fc \<noteq> ''present_artifact''\<close> \<open>name fc \<noteq> ''create_task_list''\<close>
        \<open>name fc \<noteq> ''modify_artifact''\<close>
    by blast
  then show ?thesis
  proof cases
    case present
    let ?new = \<open>\<lparr>a_id = ''artifact-'' @ show_nat (clock 0), a_title = arg_title (args fc),
        a_type = arg_type (args fc), a_content = arg_content (args fc),
        a_language = arg_language (args fc)\<rparr>\<close>
    let ?s3 = \<open>saveFlows (s1\<lparr>flows := AList.update fid (fl\<lparr>artifacts := artifacts fl @ [?new]\<rparr>) (flows s1),
                 activeArtifactId := Some (a_id ?new)\<rparr>)\<close>
    have \<open>extends fid K H ?s3\<close>
      using e1 f by (simp add: extends_def saveFlows_def update_conv')
    then have \<open>extends fid K H (snd (renderArtifactViewer n ?s3))\<close> by (rule extends_viewer)
    moreover have \<open>handleFunctionCall n clock fc s = renderArtifactViewer n ?s3\<close>
      using present f by (simp add: handleFunctionCall_def Let_def p activeFlow_Some)
    ultimately show ?thesis by simp
  next
    case tasks
    show ?thesis
    proof (cases \<open>renderTaskList clock (arg_tasks (args fc))\<close>)
      case (Inl err)
      then have \<open>handleFunctionCall n clock fc s = (Some err, s1)\<close>
        using tasks by (simp add: handleFunctionCall_def Let_def p)
      then show ?thesis using e1 by simp
    next
      case (Inr html)
      then have \<open>handleFunctionCall n clock fc s
          = appendMessage Model ''I have created the following task list for you:'' html s1\<close>
        using tasks by (simp add: handleFunctionCall_def Let_def p)
      then show ?thesis using ap by simp
    qed
  next
    case modify
    show ?thesis
    proof (cases \<open>find (\<lambda>a. Some (a_id a) = arg_artifactId (args fc)) (artifacts fl)\<close>)
      case None
      then have \<open>handleFunctionCall n clock fc s
          = appendMessage Model (''Apologies, I could not find an artifact with the ID ''
                         @ js_str (arg_artifactId (args fc)) @ ''.'') [] s1\<close>
        using modify f by (simp add: handleFunctionCall_def Let_def p activeFlow_Some)
      then show ?thesis using ap by simp
    next
      case (Some a)
      let ?s2 = \<open>saveFlows (s1\<lparr>flows := AList.update fid
           (fl\<lparr>artifacts := update_first (\<lambda>a. Some (a_id a) = arg_artifactId (args fc))
                 (\<lambda>a. a\<lparr>a_content := arg_newContent (args fc)\<rparr>) (artifacts fl)\<rparr>) (flows s1)\<rparr>)\<close>
      have e2: \<open>extends fid K H ?s2\<close>
        using e1 f by (simp add: extends_def saveFlows_def update_conv')
      then have e3: \<open>extends fid K H (snd (appendMessage Model
           (''I have updated the artifact: *'' @ js_str (a_title a) @ ''*.'') [] ?s2))\<close>
        using extends_append ne by blast
      have \<open>handleFunctionCall n clock fc s
          = and_then
              (if activeArtifactId ?s2 = arg_artifactId (args fc)
               then (renderArtifactContent (a\<lparr>a_content := arg_newContent (args fc)\<rparr>), ?s2)
               else (None, ?s2))
              (appendMessage Model (''I have updated the artifact: *'' @ js_str (a_title a) @ ''*.'') [])\<close>
        using modify f Some by (simp add: handleFunctionCall_def Let_def p activeFlow_Some)
      then show ?thesis using e2 e3 by (simp add: snd_and_then_cases)
    qed
  next
    case other
    then have \<open>handleFunctionCall n clock fc s = (None, s1)\<close>
      by (simp add: handleFunctionCall_def Let_def p)
    then show ?thesis using e1 by simp
  qed
qed

lemma extends_handleFunctionCalls:
  assumes \<open>extends fid K H s\<close> \<open>fid \<noteq> []\<close>
  shows \<open>extends fid K H (snd (handleFunctionCalls n clock i fcs s))\<close>
  using assms
proof (induction fcs arbitrary: s i)
  case Nil
  then show ?case by simp
next
  case (Cons fc fcs)
  have \<open>extends fid K H (snd (handleFunctionCall n (clock i) fc s))\<close>
    using Cons.prems by (rule extends_handleFunctionCall)
  then show ?case using Cons.IH Cons.prems(2) by (simp add: snd_and_then_cases)
qed

lemma extends_sendAndDispatch:
  assumes \<open>extends fid K H s\<close> \<open>fid \<noteq> []\<close>
  shows \<open>extends fid K H (snd (sendAndDispatch n clock response s))\<close>
proof (cases \<open>aiChat s\<close>)
  case None
  then show ?thesis using assms by (simp add: sendAndDispatch_def)
next
  case (Some chat)
  show ?thesis
  proof (cases response)
    case Failed
    then show ?thesis using assms Some by (simp add: sendAndDispatch_def)
  next
    case (Reply tx fcs)
    define r where \<open>r = (case tx of None \<Rightarrow> (None, s)
        | Some t \<Rightarrow> if t \<noteq> [] then appendMessage Model t [] s else (None, s))\<close>
    have \<open>extends fid K H (snd r)\<close>
      using assms extends_append[OF assms] by (auto simp: r_def split: option.splits)
    then have \<open>extends fid K H (snd (and_then r (handleFunctionCalls n clock 0 fcs)))\<close>
      using extends_handleFunctionCalls[OF _ assms(2)] by (simp add: snd_and_then_cases)
    then show ?thesis using Some Reply by (simp add: sendAndDispatch_def r_def)
  qed
qed


lemma extends_setLoading: \<open>extends fid K H (setLoading b s) = extends fid K H s\<close>
  by (simp add: extends_def setLoading_def)

lemma handleFormSubmit_accepted:
  assumes \<open>\<not> isLoading s\<close> \<open>trim input \<noteq> []\<close>
    and act: \<open>activeFlowId s = Some fid\<close> \<open>fid \<noteq> []\<close> \<open>map_of (flows s) fid = Some fl\<close>
  defines \<open>s2 \<equiv> setLoading True (snd (appendMessage User (trim input) [] (snd (pushUndoState s))))\<close>
  shows \<open>extends fid (historyStack s @ [fl]) (history fl @ [\<lparr>role = User, parts = [trim input]\<rparr>]) s2\<close>
    and \<open>historyStack s2 = historyStack s @ [fl]\<close>
    and \<open>handleFormSubmit n clock input response s =
     (case sendAndDispatch n clock response s2 of
        (None, s3) \<Rightarrow> (None, setLoading False s3)
      | (Some e, s3) \<Rightarrow>
          (case appendMessage Model ''apologies sprite*. an error occurred. please try again.'' [] s3 of
             (e', s4) \<Rightarrow> (e', setLoading False s4)))\<close>
proof -
  let ?s1 = \<open>s\<lparr>historyStack := historyStack s @ [fl], redoStack := []\<rparr>\<close>
  have s1: \<open>activeFlowId ?s1 = Some fid\<close> \<open>map_of (flows ?s1) fid = Some fl\<close> using act by simp_all
  note a = appendMessage_active[OF s1(1) act(2) s1(2), of User \<open>trim input\<close> \<open>[]\<close>]
  note p = pushUndoState_active[OF act]
  show \<open>extends fid (historyStack s @ [fl]) (history fl @ [\<lparr>role = User, parts = [trim input]\<rparr>]) s2\<close>
    using act by (simp add: s2_def p a extends_def setLoading_def update_conv')
  show \<open>historyStack s2 = historyStack s @ [fl]\<close>
    by (simp add: s2_def p a setLoading_def)
  show \<open>handleFormSubmit n clock input response s =
     (case sendAndDispatch n clock response s2 of
        (None, s3) \<Rightarrow> (None, setLoading False s3)
      | (Some e, s3) \<Rightarrow>
          (case appendMessage Model ''apologies sprite*. an error occurred. please try again.'' [] s3 of
             (e', s4) \<Rightarrow> (e', setLoading False s4)))\<close>
    using assms(1,2)
    by (simp add: handleFormSubmit_def Let_def s2_def p a)
qed

lemma sendAndDispatch_no_calls:
  \<open>historyStack (snd (sendAndDispatch n clock Failed s)) = historyStack s\<close>
  \<open>historyStack (snd (sendAndDispatch n clock (Reply tx []) s)) = historyStack s\<close>
  by (simp_all add: sendAndDispatch_def appendMessage_stacks snd_and_then_cases split: option.splits)

lemma handleFormSubmit_general:
  assumes \<open>\<not> isLoading s\<close> \<open>trim input \<noteq> []\<close>
    and act: \<open>activeFlowId s = Some fid\<close> \<open>fid \<noteq> []\<close> \<open>map_of (flows s) fid = Some fl\<close>
  defines \<open>s2 \<equiv> setLoading True (snd (appendMessage User (trim input) [] (snd (pushUndoState s))))\<close>
  shows \<open>fst (handleFormSubmit n clock input response s) = None\<close>
    and \<open>extends fid (historyStack s @ [fl]) (history fl @ [\<lparr>role = User, parts = [trim input]\<rparr>])
           (snd (handleFormSubmit n clock input response s))\<close>
    and \<open>historyStack (snd (sendAndDispatch n clock response s2)) = historyStack s2 \<Longrightarrow>
           historyStack (snd (handleFormSubmit n clock input response s)) = historyStack s @ [fl]\<close>
proof -
  let ?K = \<open>historyStack s @ [fl]\<close> and ?H = \<open>history fl @ [\<lparr>role = User, parts = [trim input]\<rparr>]\<close>
  let ?apology = \<open>''apologies sprite*. an error occurred. please try again.''\<close>
  note acc = handleFormSubmit_accepted(1,2)[OF assms(1-5), folded s2_def]
    handleFormSubmit_accepted(3)[OF assms(1-5), of n clock response, folded s2_def]
  obtain e s3 where d: \<open>sendAndDispatch n clock response s2 = (e, s3)\<close>
    by (cases \<open>sendAndDispatch n clock response s2\<close>)
  have e3: \<open>extends fid ?K ?H s3\<close>
    using extends_sendAndDispatch[OF acc(1) act(2), of n clock response] d by simp
  obtain e' s4 where a: \<open>appendMessage Model ?apology [] s3 = (e', s4)\<close>
    by (cases \<open>appendMessage Model ?apology [] s3\<close>)
  have a4: \<open>e' = None\<close> \<open>extends fid ?K ?H s4\<close> \<open>historyStack s4 = historyStack s3\<close>
    using extends_append[OF e3 act(2), of Model ?apology \<open>[]\<close>] appendMessage_stacks[of Model ?apology \<open>[]\<close> s3] a
    by simp_all
  have run: \<open>handleFormSubmit n clock input response s
      = (case e of None \<Rightarrow> (None, setLoading False s3) | Some x \<Rightarrow> (None, setLoading False s4))\<close>
    using acc(3) d a a4(1) by (simp split: option.splits)
  show \<open>fst (handleFormSubmit n clock input response s) = None\<close>
    by (simp add: run split: option.splits)
  show \<open>extends fid ?K ?H (snd (handleFormSubmit n clock input response s))\<close>
    using e3 a4(2) by (simp add: run extends_setLoading split: option.splits)
  show \<open>historyStack (snd (handleFormSubmit n clock input response s)) = ?K\<close>
    if \<open>historyStack (snd (sendAndDispatch n clock response s2)) = historyStack s2\<close>
    using that d a4(3) acc(2) by (simp add: run setLoading_def split: option.splits)
qed

lemma handleFormSubmit_no_calls:
  assumes \<open>\<not> isLoading s\<close> \<open>trim input \<noteq> []\<close>
    and act: \<open>activeFlowId s = Some fid\<close> \<open>fid \<noteq> []\<close> \<open>map_of (flows s) fid = Some fl\<close>
  shows \<open>historyStack (snd (handleFormSubmit n clock input Failed s)) = historyStack s @ [fl]\<close>
    and \<open>historyStack (snd (handleFormSubmit n clock input (Reply tx []) s)) = historyStack s @ [fl]\<close>
  by (rule handleFormSubmit_general(3)[OF assms]; simp add: sendAndDispatch_no_calls)+

text \<open>
  Claim C3, as the code has it. A submission that is accepted (no request in flight, the
  trimmed text not empty) in a state with an active flow \<open>fl\<close> does not throw and pushes
  a checkpoint at the submit boundary: whatever the Gateway answers, the undo stack
  afterwards starts with the old stack followed by \<open>fl\<close> as it was before the message,
  the redo stack is empty, the history of the active flow starts with the old history
  followed by the user's message, and the flows are persisted. When the Gateway fails or
  answers without tool calls that checkpoint is the only one: the undo stack is the old
  one with \<open>fl\<close> on top.
\<close>

theorem submit_pushes_checkpoint:
  assumes \<open>\<not> isLoading s\<close> \<open>trim input \<noteq> []\<close>
    and act: \<open>activeFlowId s = Some fid\<close> \<open>fid \<noteq> []\<close> \<open>map_of (flows s) fid = Some fl\<close>
  shows \<open>fst (handleFormSubmit n clock input response s) = None
     \<and> extends fid (historyStack s @ [fl]) (history fl @ [\<lparr>role = User, parts = [trim input]\<rparr>])
         (snd (handleFormSubmit n clock input response s))
     \<and> historyStack (snd (handleFormSubmit n clock input Failed s)) = historyStack s @ [fl]
     \<and> historyStack (snd (handleFormSubmit n clock input (Reply tx []) s)) = historyStack s @ [fl]\<close>
  using handleFormSubmit_general(1,2)[OF assms] handleFormSubmit_no_calls[OF assms]
  by simp

theorem submit_pushes_checkpoint_witness:
  \<open>\<not> isLoading exWorld \<and> trim ''hello'' \<noteq> [] \<and> activeFlowId exWorld = Some ''flow-1''
   \<and> ''flow-1'' \<noteq> [] \<and> map_of (flows exWorld) ''flow-1'' = Some exFlowA
   \<and> fst (handleFormSubmit 1 (\<lambda>i k. 5) ''hello'' (Reply (Some ''hi'') [exModify]) exWorld) = None
   \<and> extends ''flow-1'' [exFlowA0, exFlowA]
        [\<lparr>role = User, parts = [''design X'']\<rparr>, \<lparr>role = User, parts = [''hello'']\<rparr>]
        (snd (handleFormSubmit 1 (\<lambda>i k. 5) ''hello'' (Reply (Some ''hi'') [exModify]) exWorld))
   \<and> historyStack (snd (handleFormSubmit 1 (\<lambda>i k. 5) ''hello'' Failed exWorld))
       = [exFlowA0, exFlowA]\<close>
proof -
  have a: \<open>\<not> isLoading exWorld\<close> \<open>activeFlowId exWorld = Some ''flow-1''\<close>
    \<open>map_of (flows exWorld) ''flow-1'' = Some exFlowA\<close> \<open>historyStack exWorld = [exFlowA0]\<close>
    by (simp_all add: exWorld_def)
  have t: \<open>trim ''hello'' = ''hello''\<close> by (simp add: trim_def isWhiteSpace_def)
  then have t': \<open>trim ''hello'' \<noteq> []\<close> by simp
  have b: \<open>''flow-1'' \<noteq> []\<close> by simp
  have h: \<open>history exFlowA = [\<lparr>role = User, parts = [''design X'']\<rparr>]\<close>
    by (simp add: exFlowA_def exFlowA0_def)
  show ?thesis
    using submit_pushes_checkpoint[OF a(1) t' a(2) b a(3),
        of 1 \<open>\<lambda>i k. 5\<close> \<open>Reply (Some ''hi'') [exModify]\<close>] a t h
    by simp
qed

text \<open>
  Claim C3 as stated fails: the submission of \<open>hello\<close> to the store with two flows is
  accepted, the Gateway answers with a text and no tool call, and the undo stack is not
  what it was.
\<close>

theorem submit_keeps_undo_stack_counterexample:
  \<open>\<not> isLoading exWorld \<and> trim ''hello'' \<noteq> []
   \<and> historyStack (snd (handleFormSubmit 1 (\<lambda>i k. 5) ''hello'' (Reply (Some ''hi'') []) exWorld))
       \<noteq> historyStack exWorld\<close>
proof -
  have a: \<open>\<not> isLoading exWorld\<close> \<open>activeFlowId exWorld = Some ''flow-1''\<close>
    \<open>map_of (flows exWorld) ''flow-1'' = Some exFlowA\<close> \<open>historyStack exWorld = [exFlowA0]\<close>
    by (simp_all add: exWorld_def)
  have t: \<open>trim ''hello'' \<noteq> []\<close> by (simp add: trim_def isWhiteSpace_def)
  have b: \<open>''flow-1'' \<noteq> []\<close> by simp
  show ?thesis
    using handleFormSubmit_no_calls(2)[OF a(1) t a(2) b a(3), of 1 \<open>\<lambda>i k. 5\<close> \<open>Some ''hi''\<close>] a t
    by simp
qed

section \<open>Artifact ids\<close>

lemma show_nat_ex: \<open>show_nat 1700000000000 = ''1700000000000''\<close> \<open>show_nat 1700000000123 = ''1700000000123''\<close>
  by (simp_all add: show_nat.simps digit_char_def)
lemma firstRun_eq:
  \<open>firstRun =
     \<lparr>isLoading = False,
      flows = [(''flow-1700000000000'',
                \<lparr>f_id = ''flow-1700000000000'', f_name = ''My First Flow'', history = [],
                 snapshots = [], artifacts = []\<rparr>)],
      activeFlowId = Some ''flow-1700000000000'', aiChat = Some [],
      activeArtifactId = None, historyStack = [], redoStack = [],
      fluid_flows = None, fluid_active_flow_id = None,
      chatHistoryEl = [\<lparr>el_message = \<lparr>role = Model, parts = [welcomeMessageText]\<rparr>, el_extra = []\<rparr>],
      alerts = []\<rparr>\<close>
  by (simp add: firstRun_def init_def initialWorld_def loadFlows_def Let_def show_nat_ex
      firstKey_def initializeChat_def setLoading_def activeFlow_def resolveActiveArtifact_def
)


lemma trim_ex: \<open>trim ''design X'' = ''design X''\<close>
  by (simp add: trim_def isWhiteSpace_def)

text \<open>
  Claim C6 on the code: after a first run, the user submits a message and the Gateway
  answers with two \<^verbatim>\<open>present_artifact\<close> calls, which \<^verbatim>\<open>handleFormSubmit\<close> dispatches one
  after the other while \<^verbatim>\<open>Date.now()\<close> reads the same millisecond. Nothing throws, and
  the active flow holds two artifacts with the same id.
\<close>

theorem present_artifact_same_millisecond:
  \<open>fst (handleFormSubmit 1 (\<lambda>i k. 1700000000123) ''design X'' twoArtifacts firstRun) = None
   \<and> map_option (map a_id \<circ> artifacts)
        (activeFlow (snd (handleFormSubmit 1 (\<lambda>i k. 1700000000123) ''design X'' twoArtifacts firstRun)))
       = Some [''artifact-1700000000123'', ''artifact-1700000000123'']\<close>
  by (simp add: firstRun_eq twoArtifacts_def handleFormSubmit_def Let_def trim_ex
      pushUndoState_def deepClone_def activeFlow_def appendMessage_def saveFlows_def
      setLoading_def sendAndDispatch_def handleFunctionCall_def exPresent_def noArgs_def
      show_nat_ex)

end
